theory Spec2Isabelle
  imports Complex_Main "HOL-Library.Word" "HOL-Library.Sublist" "HOL-Library.Multiset"
    "HOL-Library.Log_Nat"
begin

section \<open>JavaScript strings\<close>

text \<open>
  A JavaScript string is a sequence of UTF-16 code units.  The regular expression of
  \<open>parseLevel\<close> has no \<open>u\<close> flag, so it works on code units as well, and so does
  \<open>String.prototype.trim\<close>.  String literals of the source are written with \<open>js\<close>.
\<close>

type_synonym code_unit = "16 word"
type_synonym jsstring = "code_unit list"

definition js :: "string \<Rightarrow> jsstring" where
  "js s = map of_char s"

text \<open>ECMAScript \<open>LineTerminator\<close>: LF, CR, LS, PS.  The regex atom \<open>.\<close> matches
  every code unit but these.\<close>

definition is_line_terminator :: "code_unit \<Rightarrow> bool" where
  "is_line_terminator c \<longleftrightarrow> c = 0x0A \<or> c = 0x0D \<or> c = 0x2028 \<or> c = 0x2029"

text \<open>ECMAScript \<open>WhiteSpace\<close> and \<open>LineTerminator\<close>: the code units matched by \<open>\s\<close>
  and stripped by \<open>trim\<close>.\<close>

definition is_space :: "code_unit \<Rightarrow> bool" where
  "is_space c \<longleftrightarrow>
     c = 0x09 \<or> c = 0x0A \<or> c = 0x0B \<or> c = 0x0C \<or> c = 0x0D \<or> c = 0x20 \<or> c = 0xA0 \<or>
     c = 0x1680 \<or> (0x2000 \<le> c \<and> c \<le> 0x200A) \<or> c = 0x2028 \<or> c = 0x2029 \<or>
     c = 0x202F \<or> c = 0x205F \<or> c = 0x3000 \<or> c = 0xFEFF"

definition trim :: "jsstring \<Rightarrow> jsstring" where
  "trim s = rev (dropWhile is_space (rev (dropWhile is_space s)))"

text \<open>\<open>s.includes(t)\<close>: \<open>t\<close> occurs in \<open>s\<close> as a contiguous block.\<close>

definition includes_str :: "jsstring \<Rightarrow> jsstring \<Rightarrow> bool" where
  "includes_str s t \<longleftrightarrow> list_ex (prefix t) (suffixes s)"

text \<open>\<open>parts.join('|')\<close>.\<close>

definition pipe :: code_unit where
  "pipe = 0x7C"

fun join_pipe :: "jsstring list \<Rightarrow> jsstring" where
  "join_pipe [] = []"
| "join_pipe [p] = p"
| "join_pipe (p # q # ps) = p @ pipe # join_pipe (q # ps)"

section \<open>The level regular expression\<close>

text \<open>
  \<open>parseLevel\<close> matches \<^verbatim>\<open>/^(.+?)\s*\(([^)]+)\)-([A-Z0-9]+)$/\<close>.  The matcher below is
  the backtracking matcher of ECMAScript in continuation-passing style: every quantifier
  takes the continuation \<open>k\<close> that matches the rest of the pattern, is given the text it
  has consumed so far and the remaining input, and returns the first success in the
  order the engine tries the alternatives.  A greedy quantifier tries to consume one
  more code unit before it tries the continuation; a lazy one tries the continuation
  first.
\<close>

fun greedy_star ::
  "(code_unit \<Rightarrow> bool) \<Rightarrow> (jsstring \<Rightarrow> jsstring \<Rightarrow> 'a option) \<Rightarrow> jsstring \<Rightarrow> jsstring \<Rightarrow> 'a option"
where
  "greedy_star p k acc [] = k acc []"
| "greedy_star p k acc (c # cs) =
     (if p c then
        (case greedy_star p k (acc @ [c]) cs of
           Some r \<Rightarrow> Some r
         | None \<Rightarrow> k acc (c # cs))
      else k acc (c # cs))"

fun lazy_star ::
  "(code_unit \<Rightarrow> bool) \<Rightarrow> (jsstring \<Rightarrow> jsstring \<Rightarrow> 'a option) \<Rightarrow> jsstring \<Rightarrow> jsstring \<Rightarrow> 'a option"
where
  "lazy_star p k acc [] = k acc []"
| "lazy_star p k acc (c # cs) =
     (case k acc (c # cs) of
        Some r \<Rightarrow> Some r
      | None \<Rightarrow> if p c then lazy_star p k (acc @ [c]) cs else None)"

fun greedy_plus ::
  "(code_unit \<Rightarrow> bool) \<Rightarrow> (jsstring \<Rightarrow> jsstring \<Rightarrow> 'a option) \<Rightarrow> jsstring \<Rightarrow> 'a option"
where
  "greedy_plus p k [] = None"
| "greedy_plus p k (c # cs) = (if p c then greedy_star p k [c] cs else None)"

fun lazy_plus ::
  "(code_unit \<Rightarrow> bool) \<Rightarrow> (jsstring \<Rightarrow> jsstring \<Rightarrow> 'a option) \<Rightarrow> jsstring \<Rightarrow> 'a option"
where
  "lazy_plus p k [] = None"
| "lazy_plus p k (c # cs) = (if p c then lazy_star p k [c] cs else None)"

fun lit :: "code_unit \<Rightarrow> (jsstring \<Rightarrow> 'a option) \<Rightarrow> jsstring \<Rightarrow> 'a option" where
  "lit a k [] = None"
| "lit a k (c # cs) = (if c = a then k cs else None)"

definition lparen :: code_unit where
  "lparen = 0x28"

definition rparen :: code_unit where
  "rparen = 0x29"

definition hyphen :: code_unit where
  "hyphen = 0x2D"

text \<open>The class \<open>[A-Z0-9]\<close>.\<close>

definition is_upper_or_digit :: "code_unit \<Rightarrow> bool" where
  "is_upper_or_digit c \<longleftrightarrow> (0x41 \<le> c \<and> c \<le> 0x5A) \<or> (0x30 \<le> c \<and> c \<le> 0x39)"

text \<open>The tail \<^verbatim>\<open>\(([^)]+)\)-([A-Z0-9]+)$\<close> of the pattern, returning groups 2 and 3.\<close>

definition level_tail :: "jsstring \<Rightarrow> (jsstring \<times> jsstring) option" where
  "level_tail =
     lit lparen
       (greedy_plus (\<lambda>c. c \<noteq> rparen)
          (\<lambda>g2. lit rparen
             (lit hyphen
                (greedy_plus is_upper_or_digit
                   (\<lambda>g3 rest. if rest = [] then Some (g2, g3) else None)))))"

text \<open>The part \<^verbatim>\<open>\s*\(([^)]+)\)-([A-Z0-9]+)$\<close> that follows group 1.\<close>

definition level_after_name ::
  "jsstring \<Rightarrow> jsstring \<Rightarrow> (jsstring \<times> jsstring \<times> jsstring) option" where
  "level_after_name g1 =
     greedy_star is_space
       (\<lambda>_ rest. map_option (\<lambda>(g2, g3). (g1, g2, g3)) (level_tail rest)) []"

text \<open>The whole pattern, anchored at both ends, returning groups 1, 2 and 3
  (\<open>None\<close> is JavaScript's \<open>null\<close> match result).\<close>

definition level_regex :: "jsstring \<Rightarrow> (jsstring \<times> jsstring \<times> jsstring) option" where
  "level_regex = lazy_plus (\<lambda>c. \<not> is_line_terminator c) level_after_name"

section \<open>parseLevel\<close>

record ParsedLevel =
  name :: jsstring
  buCode :: jsstring
  beblCode :: jsstring
  raw :: jsstring

text \<open>The argument is \<open>string | null | undefined\<close>; \<open>None\<close> stands for both absent
  values.  \<open>!levelString\<close> also holds of the empty string.\<close>

definition parseLevel :: "jsstring option \<Rightarrow> ParsedLevel option" where
  "parseLevel levelString =
     (case levelString of
        None \<Rightarrow> None
      | Some s \<Rightarrow>
          if s = [] then None
          else
            (case level_regex s of
               None \<Rightarrow> Some \<lparr>name = trim s, buCode = [], beblCode = [], raw = s\<rparr>
             | Some (g1, g2, g3) \<Rightarrow>
                 Some \<lparr>name = trim g1, buCode = trim g2, beblCode = trim g3, raw = s\<rparr>))"

text \<open>
  The input shape the level format describes, \<open>Name\<close>, optional white space,
  \<open>(Code)-Suffix\<close>, as one string.
\<close>

definition level_rest :: "jsstring \<Rightarrow> jsstring \<Rightarrow> jsstring \<Rightarrow> jsstring" where
  "level_rest W C S = W @ lparen # C @ rparen # hyphen # S"

text \<open>A name part has an unclosed parenthesis when some \<open>(\<close> in it has no \<open>)\<close> after it.\<close>

fun unclosed :: "jsstring \<Rightarrow> bool" where
  "unclosed [] \<longleftrightarrow> False"
| "unclosed (c # cs) \<longleftrightarrow> (c = lparen \<and> rparen \<notin> set cs) \<or> unclosed cs"

text \<open>The class \<open>[A-Za-z0-9]\<close>, the alphanumeric characters the format speaks of.\<close>

definition is_alphanumeric :: "code_unit \<Rightarrow> bool" where
  "is_alphanumeric c \<longleftrightarrow> is_upper_or_digit c \<or> (0x61 \<le> c \<and> c \<le> 0x7A)"

section \<open>Rows and the hierarchy\<close>

text \<open>
  A finite JavaScript number is the real number it denotes (every IEEE 754 double is a
  dyadic rational); infinities are not in the model.  A \<open>number\<close> field that may be \<open>null\<close>,
  \<open>undefined\<close> or \<open>NaN\<close> is a \<open>real option\<close>, and \<open>v || 0\<close> is \<open>value_or0\<close>.
\<close>

definition value_or0 :: "real option \<Rightarrow> real" where
  "value_or0 v = (case v of None \<Rightarrow> 0 | Some n \<Rightarrow> n)"

text \<open>
  The arithmetic of JavaScript numbers rounds.  The operations the program uses are a
  parameter of the model, so that what is proved for every \<open>js_arith\<close> holds of the
  arithmetic of any engine.
\<close>

record js_arith =
  js_add :: "real \<Rightarrow> real \<Rightarrow> real"
  js_sub :: "real \<Rightarrow> real \<Rightarrow> real"
  js_mul :: "real \<Rightarrow> real \<Rightarrow> real"
  js_sqrt :: "real \<Rightarrow> real"

text \<open>Arithmetic without rounding.\<close>

definition exact :: js_arith where
  "exact = \<lparr>js_add = (\<lambda>a b. a + b), js_sub = (\<lambda>a b. a - b), js_mul = (\<lambda>a b. a * b), js_sqrt = sqrt\<rparr>"

text \<open>
  IEEE 754 binary64, round to nearest, ties to even.  \<open>binary_exponent a\<close> is the \<open>e\<close> with
  \<open>2 ^ e \<le> a < 2 ^ (e + 1)\<close> for a positive \<open>a\<close>.  A double has 53 significant bits, so
  its last bit is worth \<open>2 ^ (e - 52)\<close>, and never less than \<open>2 ^ - 1074\<close> (subnormal
  numbers).  \<open>round_double\<close> is the rounding of a real number whose magnitude is below
  the overflow threshold \<open>2 ^ 1024 - 2 ^ 970\<close>; \<open>+\<close>, \<open>-\<close>, \<open>*\<close> and \<open>Math.sqrt\<close> on finite
  doubles are the exact operation followed by this rounding.
\<close>

definition binary_exponent :: "real \<Rightarrow> int" where
  "binary_exponent a =
     (if 1 \<le> a then bitlen \<lfloor>a\<rfloor> - 1
      else (let k = bitlen \<lfloor>1 / a\<rfloor> - 1 in if a = 2 powi (- k) then - k else - k - 1))"

definition round_half_even :: "real \<Rightarrow> int" where
  "round_half_even m =
     (let f = \<lfloor>m\<rfloor>; d = m - of_int f
      in if d < 1 / 2 then f else if 1 / 2 < d then f + 1 else if even f then f else f + 1)"

definition round_double :: "real \<Rightarrow> real" where
  "round_double x =
     (if x = 0 then 0
      else
        (let a = \<bar>x\<bar>; u = 2 powi (max (binary_exponent a - 52) (- 1074))
         in sgn x * of_int (round_half_even (a / u)) * u))"

text \<open>
  \<open>Math.sqrt\<close>.  The square root of a real number is not computed by evaluation, which
  leaves \<open>ieee_sqrt\<close> as it is; its values are derived from the definition.
\<close>

definition ieee_sqrt :: "real \<Rightarrow> real" where
  "ieee_sqrt a = round_double (sqrt a)"

declare ieee_sqrt_def [code del]

definition ieee :: js_arith where
  "ieee =
     \<lparr>js_add = (\<lambda>a b. round_double (a + b)), js_sub = (\<lambda>a b. round_double (a - b)),
      js_mul = (\<lambda>a b. round_double (a * b)), js_sqrt = ieee_sqrt\<rparr>"

record SigmaDataRow =
  marketValue :: "real option"
  beblFullName_row :: "jsstring option"
  level0 :: "jsstring option"
  level1 :: "jsstring option"
  level2 :: "jsstring option"
  level3 :: "jsstring option"
  level4 :: "jsstring option"
  level5 :: "jsstring option"
  level6 :: "jsstring option"
  level7 :: "jsstring option"
  level8 :: "jsstring option"
  level9 :: "jsstring option"
  level10 :: "jsstring option"

text \<open>
  The interface \<open>HierarchyNode\<close>: its scalar fields are a record, and a node is the
  record with its \<open>children\<close>.  Every node the program builds has a \<open>children\<close> array,
  and every read of \<open>children\<close> treats \<open>undefined\<close> as the empty array, so \<open>children\<close>
  is a list.
\<close>

record node_fields =
  name_node :: jsstring
  buCode_node :: "jsstring option"
  beblCode_node :: "jsstring option"
  beblFullName_node :: "jsstring option"
  rawLabel_node :: "jsstring option"
  value_node :: "real option"
  level_node :: int
  path_node :: jsstring

datatype HierarchyNode = HierarchyNode (info: node_fields) (children: "HierarchyNode list")

record SearchResult =
  name_result :: jsstring
  buCode_result :: "jsstring option"
  beblCode_result :: "jsstring option"
  beblFullName_result :: "jsstring option"
  rawLabel_result :: "jsstring option"
  path_result :: jsstring
  value_result :: real
  level_result :: int

subsection \<open>extractPath and buildPathKey\<close>

definition levels :: "SigmaDataRow \<Rightarrow> jsstring option list" where
  "levels row =
     [level0 row, level1 row, level2 row, level3 row, level4 row, level5 row,
      level6 row, level7 row, level8 row, level9 row, level10 row]"

text \<open>\<open>!level\<close>: the field is \<open>null\<close>, \<open>undefined\<close> or the empty string.\<close>

definition falsy :: "jsstring option \<Rightarrow> bool" where
  "falsy level \<longleftrightarrow> level = None \<or> level = Some []"

text \<open>The \<open>for\<close> loop of \<open>extractPath\<close>, with its \<open>break\<close>.\<close>

fun extract_levels :: "jsstring option list \<Rightarrow> ParsedLevel list" where
  "extract_levels [] = []"
| "extract_levels (level # rest) =
     (if falsy level then []
      else
        (case parseLevel level of
           Some parsed \<Rightarrow> parsed # extract_levels rest
         | None \<Rightarrow> extract_levels rest))"

definition extractPath :: "SigmaDataRow \<Rightarrow> ParsedLevel list" where
  "extractPath row = extract_levels (levels row)"

definition buildPathKey :: "ParsedLevel list \<Rightarrow> jsstring" where
  "buildPathKey pathArray = join_pipe (map raw pathArray)"

subsection \<open>Finding and updating nodes\<close>

text \<open>\<open>findNodeByPath\<close>; the local \<open>findNode\<close> functions of \<open>App\<close> and of
  \<open>CirclePacking\<close> are copies of it.\<close>

fun findNodeByPath :: "HierarchyNode \<Rightarrow> jsstring \<Rightarrow> HierarchyNode option"
  and findNodeByPath_in :: "HierarchyNode list \<Rightarrow> jsstring \<Rightarrow> HierarchyNode option" where
  "findNodeByPath (HierarchyNode f cs) p =
     (if path_node f = p then Some (HierarchyNode f cs) else findNodeByPath_in cs p)"
| "findNodeByPath_in [] p = None"
| "findNodeByPath_in (c # cs) p =
     (case findNodeByPath c p of
        Some found \<Rightarrow> Some found
      | None \<Rightarrow> findNodeByPath_in cs p)"

text \<open>
  \<open>transformToHierarchy\<close> mutates node objects that are shared between the tree and
  \<open>nodeMap\<close>.  \<open>nodeMap\<close> holds every node of the tree under the node's own \<open>path\<close>
  (the root under the empty string), a node is entered when it is created, and it
  is created only when its key is not in the map yet.  So a node is addressed by its
  path: \<open>nodeMap.has(k)\<close> is \<open>findNodeByPath root k \<noteq> None\<close>, and a mutation of
  \<open>nodeMap.get(k)\<close> or of \<open>parentNode\<close> is \<open>update_node\<close> at that path in the tree.
  \<open>update_node\<close> changes the first node with the path in the order of \<open>findNodeByPath\<close>;
  that the tree never has two nodes with one path is proved below, with the properties
  of \<open>transformToHierarchy\<close>.
\<close>

fun update_node :: "jsstring \<Rightarrow> (HierarchyNode \<Rightarrow> HierarchyNode) \<Rightarrow> HierarchyNode \<Rightarrow> HierarchyNode"
  and update_in :: "jsstring \<Rightarrow> (HierarchyNode \<Rightarrow> HierarchyNode) \<Rightarrow> HierarchyNode list \<Rightarrow> HierarchyNode list"
where
  "update_node k g (HierarchyNode f cs) =
     (if path_node f = k then g (HierarchyNode f cs) else HierarchyNode f (update_in k g cs))"
| "update_in k g [] = []"
| "update_in k g (c # cs) =
     (if findNodeByPath c k \<noteq> None then update_node k g c # cs else c # update_in k g cs)"

text \<open>\<open>parentNode.children.push(newNode)\<close>.\<close>

definition push_child :: "jsstring \<Rightarrow> HierarchyNode \<Rightarrow> HierarchyNode \<Rightarrow> HierarchyNode" where
  "push_child parentNode newNode =
     update_node parentNode (\<lambda>n. HierarchyNode (info n) (children n @ [newNode]))"

text \<open>\<open>if (existingNode.value !== undefined) existingNode.value += marketValue;
  else existingNode.value = marketValue\<close>.\<close>

definition add_value :: "js_arith \<Rightarrow> jsstring \<Rightarrow> real \<Rightarrow> HierarchyNode \<Rightarrow> HierarchyNode" where
  "add_value arith existingNode mv =
     update_node existingNode
       (\<lambda>n. HierarchyNode
          ((info n)\<lparr>value_node :=
             (case value_node (info n) of
                None \<Rightarrow> Some mv
              | Some v \<Rightarrow> Some (js_add arith v mv))\<rparr>)
          (children n))"

subsection \<open>transformToHierarchy\<close>

definition root_node :: HierarchyNode where
  "root_node =
     HierarchyNode
       \<lparr>name_node = js ''Root'', buCode_node = None, beblCode_node = None,
        beblFullName_node = None, rawLabel_node = None, value_node = None,
        level_node = - 1, path_node = []\<rparr> []"

text \<open>
  The body of \<open>path.forEach((level, index) => ...)\<close>.  The state is the tree under \<open>root\<close> and
  \<open>parentNode\<close>, the latter given by its path; \<open>currentPathKey\<close> is written and never
  read.  \<open>beblFullNameMap\<close> is optional.  The only arithmetic of \<open>transformToHierarchy\<close> is
  the \<open>+=\<close> on an existing value.
\<close>

definition visit_level ::
  "js_arith \<Rightarrow> (jsstring \<rightharpoonup> jsstring) option \<Rightarrow> real \<Rightarrow> ParsedLevel list \<Rightarrow>
   HierarchyNode \<times> jsstring \<Rightarrow> nat \<Rightarrow> HierarchyNode \<times> jsstring" where
  "visit_level arith beblFullNameMap mv path st index =
     (let tree = fst st;
          parentNode = snd st;
          level = path ! index;
          nodePathKey = buildPathKey (take (index + 1) path)
      in
        if findNodeByPath tree nodePathKey = None then
          (let newNode =
             HierarchyNode
               \<lparr>name_node = name level, buCode_node = Some (buCode level),
                beblCode_node = Some (beblCode level),
                beblFullName_node =
                  (case beblFullNameMap of None \<Rightarrow> None | Some m \<Rightarrow> m nodePathKey),
                rawLabel_node = Some (raw level),
                value_node = (if int index = int (length path) - 1 then Some mv else None),
                level_node = int index, path_node = nodePathKey\<rparr> []
           in (push_child parentNode newNode tree, nodePathKey))
        else
          (if int index = int (length path) - 1 then add_value arith nodePathKey mv tree
           else tree,
           nodePathKey))"

text \<open>The body of \<open>rows.forEach(row => ...)\<close>.\<close>

definition add_row ::
  "js_arith \<Rightarrow> (jsstring \<rightharpoonup> jsstring) option \<Rightarrow> HierarchyNode \<Rightarrow> SigmaDataRow \<Rightarrow>
   HierarchyNode" where
  "add_row arith beblFullNameMap tree row =
     (let mv = value_or0 (marketValue row);
          path = extractPath row
      in
        if length path = 0 then tree
        else
          fst (foldl (visit_level arith beblFullNameMap mv path) (tree, []) [0..<length path]))"

definition transformToHierarchy ::
  "js_arith \<Rightarrow> SigmaDataRow list \<Rightarrow> (jsstring \<rightharpoonup> jsstring) option \<Rightarrow> HierarchyNode" where
  "transformToHierarchy arith rows beblFullNameMap =
     foldl (add_row arith beblFullNameMap) root_node rows"

subsection \<open>flattenHierarchy and searchNodes\<close>

definition toSearchResult :: "HierarchyNode \<Rightarrow> SearchResult" where
  "toSearchResult node =
     \<lparr>name_result = name_node (info node), buCode_result = buCode_node (info node),
      beblCode_result = beblCode_node (info node),
      beblFullName_result = beblFullName_node (info node),
      rawLabel_result = rawLabel_node (info node), path_result = path_node (info node),
      value_result = value_or0 (value_node (info node)),
      level_result = level_node (info node)\<rparr>"

text \<open>\<open>results\<close> is the array all recursive calls push to; the model passes it on.\<close>

fun flattenHierarchy :: "HierarchyNode \<Rightarrow> SearchResult list \<Rightarrow> SearchResult list"
  and flatten_children :: "HierarchyNode list \<Rightarrow> SearchResult list \<Rightarrow> SearchResult list" where
  "flattenHierarchy (HierarchyNode f cs) results =
     flatten_children cs
       (if level_node f \<ge> 0 then results @ [toSearchResult (HierarchyNode f cs)] else results)"
| "flatten_children [] results = results"
| "flatten_children (c # cs) results = flatten_children cs (flattenHierarchy c results)"

text \<open>\<open>field && field.toLowerCase().includes(term)\<close> for an optional string field.\<close>

definition field_includes :: "(jsstring \<Rightarrow> jsstring) \<Rightarrow> jsstring option \<Rightarrow> jsstring \<Rightarrow> bool" where
  "field_includes toLowerCase field term \<longleftrightarrow>
     (case field of None \<Rightarrow> False | Some s \<Rightarrow> s \<noteq> [] \<and> includes_str (toLowerCase s) term)"

text \<open>\<open>String.prototype.toLowerCase\<close> applies the Unicode case mapping; it is a
  parameter of the model.\<close>

definition searchNodes ::
  "(jsstring \<Rightarrow> jsstring) \<Rightarrow> jsstring \<Rightarrow> SearchResult list \<Rightarrow> SearchResult list" where
  "searchNodes toLowerCase searchTerm searchResults =
     (if trim searchTerm = [] then []
      else
        (let term = toLowerCase searchTerm
         in filter
              (\<lambda>result.
                 includes_str (toLowerCase (name_result result)) term \<or>
                 field_includes toLowerCase (buCode_result result) term \<or>
                 field_includes toLowerCase (beblCode_result result) term \<or>
                 field_includes toLowerCase (beblFullName_result result) term \<or>
                 field_includes toLowerCase (rawLabel_result result) term)
              searchResults))"

subsection \<open>Aggregates of a tree\<close>

text \<open>All nodes of a tree, the node first and then the nodes below each child in turn: the
  order in which \<open>flattenHierarchy\<close> visits them.\<close>

fun nodes :: "HierarchyNode \<Rightarrow> HierarchyNode list"
  and nodes_in :: "HierarchyNode list \<Rightarrow> HierarchyNode list" where
  "nodes (HierarchyNode f cs) = HierarchyNode f cs # nodes_in cs"
| "nodes_in [] = []"
| "nodes_in (c # cs) = nodes c @ nodes_in cs"

text \<open>The direct value of a node, \<open>node.value || 0\<close>, and the sum of the direct values over
  a subtree, the node itself included.\<close>

definition direct :: "HierarchyNode \<Rightarrow> real" where
  "direct n = value_or0 (value_node (info n))"

definition subtree_sum :: "HierarchyNode \<Rightarrow> real" where
  "subtree_sum t = sum_list (map direct (nodes t))"

text \<open>The value stored in the tree under a path key: the \<open>value\<close> of \<open>nodeMap.get(k)\<close>,
  \<open>None\<close> when there is no such node or its \<open>value\<close> is \<open>undefined\<close>.\<close>

definition value_at :: "HierarchyNode \<Rightarrow> jsstring \<Rightarrow> real option" where
  "value_at t k = (case findNodeByPath t k of None \<Rightarrow> None | Some n \<Rightarrow> value_node (info n))"

text \<open>
  The rows that end at a path key are the rows whose own key, the raw level strings of
  their path joined with \<open>|\<close>, is that key.  What they accumulate there: nothing when
  there is no such row, else the weight of the first of them, to which the weight of
  each later one is added in the order of the rows, with the addition of the program; a
  missing weight counts as 0.
\<close>

definition row_key :: "SigmaDataRow \<Rightarrow> jsstring" where
  "row_key row = buildPathKey (extractPath row)"

definition weights_at :: "SigmaDataRow list \<Rightarrow> jsstring \<Rightarrow> real list" where
  "weights_at rows k =
     map (\<lambda>row. value_or0 (marketValue row))
       (filter (\<lambda>row. extractPath row \<noteq> [] \<and> row_key row = k) rows)"

definition accumulated :: "js_arith \<Rightarrow> SigmaDataRow list \<Rightarrow> jsstring \<Rightarrow> real option" where
  "accumulated arith rows k =
     (case weights_at rows k of
        [] \<Rightarrow> None
      | w # ws \<Rightarrow> Some (foldl (js_add arith) w ws))"

text \<open>The path keys of all nodes of a tree, in the order of \<open>nodes\<close>.\<close>

definition paths :: "HierarchyNode \<Rightarrow> jsstring list" where
  "paths t = map (\<lambda>n. path_node (info n)) (nodes t)"

definition paths_in :: "HierarchyNode list \<Rightarrow> jsstring list" where
  "paths_in cs = map (\<lambda>n. path_node (info n)) (nodes_in cs)"

text \<open>One more row ends at a node: its weight initialises the value or is added to it.\<close>

definition accumulate :: "js_arith \<Rightarrow> real option \<Rightarrow> real \<Rightarrow> real option" where
  "accumulate arith v mv = (case v of None \<Rightarrow> Some mv | Some w \<Rightarrow> Some (js_add arith w mv))"

text \<open>The scalar fields of the node found under a path key.\<close>

definition info_at :: "HierarchyNode \<Rightarrow> jsstring \<Rightarrow> node_fields option" where
  "info_at t q = map_option info (findNodeByPath t q)"

definition info_in :: "HierarchyNode list \<Rightarrow> jsstring \<Rightarrow> node_fields option" where
  "info_in cs q = map_option info (findNodeByPath_in cs q)"

section \<open>Focus and breadcrumbs\<close>

record app_state =
  focusedPath :: "jsstring option"
  breadcrumbs :: "HierarchyNode list"

text \<open>
  \<open>findPath\<close> of \<open>handleSearchSelect\<close>: it returns whether the target is in the subtree and
  fills \<open>trail\<close>; the model returns both.  Nothing is added to \<open>trail\<close> on a path that
  does not lead to the target.
\<close>

fun findPath :: "HierarchyNode \<Rightarrow> jsstring \<Rightarrow> bool \<times> HierarchyNode list"
  and findPath_in :: "HierarchyNode list \<Rightarrow> jsstring \<Rightarrow> bool \<times> HierarchyNode list" where
  "findPath (HierarchyNode f cs) targetPath =
     (if path_node f = targetPath then
        (True, if level_node f \<ge> 0 then [HierarchyNode f cs] else [])
      else
        (case findPath_in cs targetPath of
           (True, trail) \<Rightarrow> (True, if level_node f \<ge> 0 then HierarchyNode f cs # trail else trail)
         | (False, trail) \<Rightarrow> (False, trail)))"
| "findPath_in [] targetPath = (False, [])"
| "findPath_in (c # cs) targetPath =
     (case findPath c targetPath of
        (True, trail) \<Rightarrow> (True, trail)
      | (False, _) \<Rightarrow> findPath_in cs targetPath)"

text \<open>\<open>handleSearchSelect\<close>: \<open>hierarchyData\<close> is \<open>null\<close> while there is no data; the two
  state setters are the only effects.\<close>

definition handleSearchSelect ::
  "HierarchyNode option \<Rightarrow> SearchResult \<Rightarrow> app_state \<Rightarrow> app_state" where
  "handleSearchSelect hierarchyData result st =
     (case hierarchyData of
        None \<Rightarrow> st
      | Some tree \<Rightarrow>
          (case findNodeByPath tree (path_result result) of
             None \<Rightarrow> st
           | Some foundNode \<Rightarrow>
               if children foundNode \<noteq> [] then
                 st\<lparr>focusedPath := Some (path_result result),
                    breadcrumbs := snd (findPath tree (path_result result))\<rparr>
               else st))"

text \<open>\<open>focusedNode\<close> of \<open>CirclePacking\<close>: \<open>!focusedPath\<close> holds of \<open>null\<close> and of the empty
  string, and a path that is not found falls back to the whole tree.\<close>

definition focusedNode :: "HierarchyNode \<Rightarrow> jsstring option \<Rightarrow> HierarchyNode" where
  "focusedNode tree fp =
     (if falsy fp then tree
      else (case findNodeByPath tree (the fp) of Some n \<Rightarrow> n | None \<Rightarrow> tree))"

section \<open>The weights of the layout\<close>

datatype LayoutNode =
  LayoutNode (data_layout: HierarchyNode) (depth_layout: nat) (value_layout: real)
    (children_layout: "LayoutNode list")

text \<open>
  Modelled from the spec: \<open>d3.hierarchy(node).sum(d => d.value || 0)\<close> belongs to the d3
  library, which is not part of the sources.  It builds one layout node for every node
  below the focus, the focus at depth 0, and gives each the accessor's value of its own
  datum plus the values of its children, computed bottom-up.
\<close>

fun hierarchy_sum :: "nat \<Rightarrow> HierarchyNode \<Rightarrow> LayoutNode" where
  "hierarchy_sum d (HierarchyNode f cs) =
     LayoutNode (HierarchyNode f cs) d
       (value_or0 (value_node f) + sum_list (map (\<lambda>c. value_layout (hierarchy_sum (d + 1) c)) cs))
       (map (hierarchy_sum (d + 1)) cs)"

text \<open>
  Modelled from the spec: \<open>.sort((a, b) => (b.value || 0) - (a.value || 0))\<close> of d3 orders
  the children of every layout node by descending value, ties in insertion order.
\<close>

fun hierarchy_sort :: "LayoutNode \<Rightarrow> LayoutNode" where
  "hierarchy_sort (LayoutNode n d v kids) =
     LayoutNode n d v (sort_key (\<lambda>k. - value_layout k) (map hierarchy_sort kids))"

definition layout_hierarchy :: "HierarchyNode \<Rightarrow> jsstring option \<Rightarrow> LayoutNode" where
  "layout_hierarchy tree fp = hierarchy_sort (hierarchy_sum 0 (focusedNode tree fp))"

text \<open>
  Modelled from the spec: \<open>root.descendants()\<close> of d3 lists every layout node, breadth
  first: the root, then the nodes one level down from left to right, then the next
  level, as long as a level has nodes.
\<close>

fun nodes_at_depth :: "nat \<Rightarrow> LayoutNode \<Rightarrow> LayoutNode list" where
  "nodes_at_depth 0 t = [t]"
| "nodes_at_depth (Suc k) (LayoutNode n d v kids) = concat (map (nodes_at_depth k) kids)"

fun height_layout :: "LayoutNode \<Rightarrow> nat" where
  "height_layout (LayoutNode n d v kids) = foldr max (map (\<lambda>k. Suc (height_layout k)) kids) 0"

definition descendants :: "LayoutNode \<Rightarrow> LayoutNode list" where
  "descendants t = concat (map (\<lambda>k. nodes_at_depth k t) [0..<Suc (height_layout t)])"

text \<open>The layout nodes of a subtree, the node first and then those below each child.\<close>

fun layout_nodes :: "LayoutNode \<Rightarrow> LayoutNode list" where
  "layout_nodes (LayoutNode n d v kids) = LayoutNode n d v kids # concat (map layout_nodes kids)"

section \<open>Label selection\<close>

text \<open>What the label loop reads of a laid-out node: centre, radius and depth.  Anything
  else a node carries is the \<open>more\<close> part of the record.\<close>

record CircleNode =
  x_node :: real
  y_node :: real
  r_node :: real
  depth_node :: nat

definition distance :: "js_arith \<Rightarrow> 'a CircleNode_scheme \<Rightarrow> 'a CircleNode_scheme \<Rightarrow> real" where
  "distance fl candidate existing =
     (let dx = js_sub fl (x_node candidate) (x_node existing);
          dy = js_sub fl (y_node candidate) (y_node existing)
      in js_sqrt fl (js_add fl (js_mul fl dx dx) (js_mul fl dy dy)))"

definition minDistance :: "js_arith \<Rightarrow> 'a CircleNode_scheme \<Rightarrow> 'a CircleNode_scheme \<Rightarrow> real" where
  "minDistance fl candidate existing =
     js_sub fl (js_add fl (r_node candidate) (r_node existing)) 10"

text \<open>The inner loop with its \<open>break\<close>.\<close>

fun hasOverlap :: "js_arith \<Rightarrow> 'a CircleNode_scheme \<Rightarrow> 'a CircleNode_scheme list \<Rightarrow> bool" where
  "hasOverlap fl candidate [] \<longleftrightarrow> False"
| "hasOverlap fl candidate (existing # rest) \<longleftrightarrow>
     (if distance fl candidate existing < minDistance fl candidate existing then True
      else hasOverlap fl candidate rest)"

text \<open>The outer loop: \<open>shown\<close> is \<open>labelsToShow\<close> so far.\<close>

fun scan_labels ::
  "js_arith \<Rightarrow> 'a CircleNode_scheme list \<Rightarrow> 'a CircleNode_scheme list \<Rightarrow>
   'a CircleNode_scheme list" where
  "scan_labels fl shown [] = shown"
| "scan_labels fl shown (candidate # rest) =
     scan_labels fl (if \<not> hasOverlap fl candidate shown then shown @ [candidate] else shown) rest"

text \<open>
  \<open>nodes.filter(d => d.r > 35 && d.depth > 0).sort((a, b) => b.r - a.r)\<close>.  Comparisons of
  doubles are exact, the rounded difference of two finite doubles has the sign of their
  exact difference, and the sort of JavaScript is stable: the candidates are sorted by
  descending radius, ties in the order of the input.
\<close>

definition labelCandidates :: "'a CircleNode_scheme list \<Rightarrow> 'a CircleNode_scheme list" where
  "labelCandidates ns =
     sort_key (\<lambda>d. - r_node d) (filter (\<lambda>d. r_node d > 35 \<and> depth_node d > 0) ns)"

definition labelsToShow :: "js_arith \<Rightarrow> 'a CircleNode_scheme list \<Rightarrow> 'a CircleNode_scheme list" where
  "labelsToShow fl ns = scan_labels fl [] (labelCandidates ns)"

text \<open>
  The separation the selection is meant to keep, in the words of the specification and
  without the program's arithmetic: the Euclidean distance of the centres is at least
  the sum of the radii less the allowance of 10.
\<close>

definition separated :: "'a CircleNode_scheme \<Rightarrow> 'a CircleNode_scheme \<Rightarrow> bool" where
  "separated a b \<longleftrightarrow>
     sqrt ((x_node a - x_node b)\<^sup>2 + (y_node a - y_node b)\<^sup>2) \<ge> r_node a + r_node b - 10"

text \<open>
  The same separation with every operation of the formula replaced by the operation of
  an arithmetic: the differences of the coordinates, their squares, the sum of the
  squares, its square root, the sum of the radii and the subtraction of the allowance.
\<close>

definition computed_separated ::
  "js_arith \<Rightarrow> 'a CircleNode_scheme \<Rightarrow> 'a CircleNode_scheme \<Rightarrow> bool" where
  "computed_separated fl a b \<longleftrightarrow>
     js_sqrt fl
       (js_add fl
          (js_mul fl (js_sub fl (x_node a) (x_node b)) (js_sub fl (x_node a) (x_node b)))
          (js_mul fl (js_sub fl (y_node a) (y_node b)) (js_sub fl (y_node a) (y_node b))))
       \<ge> js_sub fl (js_add fl (r_node a) (r_node b)) 10"

text \<open>The geometry of a node: the node without what it carries beside centre, radius
  and depth.\<close>

definition geometry :: "'a CircleNode_scheme \<Rightarrow> CircleNode" where
  "geometry d =
     \<lparr>x_node = x_node d, y_node = y_node d, r_node = r_node d, depth_node = depth_node d\<rparr>"

text \<open>A layout node carries the weight of its subtree.\<close>

definition weighted :: "LayoutNode \<Rightarrow> bool" where
  "weighted lnode \<longleftrightarrow> value_layout lnode = subtree_sum (data_layout lnode)"

section \<open>Example inputs\<close>

text \<open>A row with a gap at the first level and a present second level.\<close>

definition gap_row :: SigmaDataRow where
  "gap_row = \<lparr>marketValue = Some 5, beblFullName_row = None,
      level0 = None, level1 = Some (js ''X (1)-Y''), level2 = None, level3 = None, level4 = None,
      level5 = None, level6 = None, level7 = None, level8 = None, level9 = None, level10 = None\<rparr>"

text \<open>Rows with two levels; the example of two rows that share their first level.\<close>

definition level_row :: "real option \<Rightarrow> jsstring option \<Rightarrow> jsstring option \<Rightarrow> SigmaDataRow" where
  "level_row w l0 l1 = \<lparr>marketValue = w, beblFullName_row = None,
      level0 = l0, level1 = l1, level2 = None, level3 = None, level4 = None,
      level5 = None, level6 = None, level7 = None, level8 = None, level9 = None, level10 = None\<rparr>"

definition row_b :: SigmaDataRow where
  "row_b = level_row (Some 100) (Some (js ''A (1)-X'')) (Some (js ''B (2)-Y''))"

definition row_c :: SigmaDataRow where
  "row_c = level_row (Some 200) (Some (js ''A (1)-X'')) (Some (js ''C (3)-Z''))"

definition example_tree :: HierarchyNode where
  "example_tree = transformToHierarchy ieee [row_b, row_c] None"

text \<open>A row whose path has one level, with a gap after it and a present third level.\<close>

definition later_gap_row :: SigmaDataRow where
  "later_gap_row = \<lparr>marketValue = Some 7, beblFullName_row = None,
      level0 = Some (js ''A (1)-X''), level1 = None, level2 = Some (js ''C (3)-Z''),
      level3 = None, level4 = None, level5 = None, level6 = None, level7 = None,
      level8 = None, level9 = None, level10 = None\<rparr>"

text \<open>Two rows that end at the same node, with the doubles nearest to 0.1 and to 0.2 as
  weights.\<close>

definition row_tenth :: SigmaDataRow where
  "row_tenth = level_row (Some (3602879701896397 / 2 ^ 55)) (Some (js ''A'')) None"

definition row_fifth :: SigmaDataRow where
  "row_fifth = level_row (Some (3602879701896397 / 2 ^ 54)) (Some (js ''A'')) None"

definition no_focus :: app_state where
  "no_focus = \<lparr>focusedPath = None, breadcrumbs = []\<rparr>"

definition result_at :: "jsstring \<Rightarrow> SearchResult" where
  "result_at p = \<lparr>name_result = [], buCode_result = None, beblCode_result = None,
       beblFullName_result = None, rawLabel_result = None, path_result = p,
       value_result = 0, level_result = 1\<rparr>"

text \<open>Laid-out circles: the root, a large circle, one that overlaps it, one too small, and
  one far away.\<close>

definition circle :: "real \<Rightarrow> real \<Rightarrow> real \<Rightarrow> nat \<Rightarrow> CircleNode" where
  "circle cx cy rad dep = \<lparr>x_node = cx, y_node = cy, r_node = rad, depth_node = dep\<rparr>"

definition example_circles :: "CircleNode list" where
  "example_circles =
     [circle 0 0 200 0, circle 30 40 40 1, circle 5 5 10 1, circle 300 400 36 2, circle 0 0 50 1]"

text \<open>Two circles whose centres are a little less than 65 apart; the radii add up to 75.\<close>

definition near_circles :: "CircleNode list" where
  "near_circles = [circle 0 0 39 1, circle (16 - 1 / 2 ^ 49) 63 36 1]"

section \<open>Properties of the string functions and of the level regular expression\<close>

text \<open>
  A greedy quantifier whose continuation fails on every input that starts with a code
  unit of the class never backtracks: the continuation only succeeds after the longest
  run.
\<close>

lemma greedy_star_committed:
  assumes "\<And>a c cs. p c \<Longrightarrow> k a (c # cs) = None"
  shows "greedy_star p k acc s = k (acc @ takeWhile p s) (dropWhile p s)"
  using assms
proof (induction s arbitrary: acc)
  case Nil
  then show ?case by simp
next
  case (Cons c cs)
  show ?case
  proof (cases "p c")
    case True
    have "greedy_star p k (acc @ [c]) cs = k ((acc @ [c]) @ takeWhile p cs) (dropWhile p cs)"
      using Cons.IH Cons.prems by blast
    with True Cons.prems show ?thesis
      by (simp split: option.splits)
  next
    case False
    then show ?thesis by simp
  qed
qed

lemma trim_append_spaces:
  assumes "\<forall>c\<in>set ws. is_space c"
  shows "trim (xs @ ws) = trim xs"
proof (cases "\<forall>c\<in>set xs. is_space c")
  case True
  with assms have "dropWhile is_space (xs @ ws) = []" and "dropWhile is_space xs = []"
    by auto
  then show ?thesis by (simp only: trim_def)
next
  case False
  then have "dropWhile is_space (xs @ ws) = dropWhile is_space xs @ ws"
    by (auto simp: dropWhile_append1)
  moreover have "dropWhile is_space (rev ws @ ys) = dropWhile is_space ys" for ys
    by (rule dropWhile_append2) (use assms in simp)
  ultimately show ?thesis by (simp add: trim_def)
qed

lemma trim_no_space:
  assumes "\<forall>c\<in>set s. \<not> is_space c"
  shows "trim s = s"
proof (cases "s = []")
  case True
  then show ?thesis by (simp add: trim_def)
next
  case False
  with assms have "\<not> is_space (hd s)" and "\<not> is_space (last s)"
    by simp_all
  with False have "dropWhile is_space s = s" and "dropWhile is_space (rev s) = rev s"
    by (simp_all add: dropWhile_eq_self_iff hd_rev)
  then show ?thesis by (simp add: trim_def)
qed

lemma not_space_lparen: "\<not> is_space lparen"
  by (simp add: is_space_def lparen_def)

lemma not_upper_lparen: "\<not> is_upper_or_digit lparen"
  by (simp add: is_upper_or_digit_def lparen_def)

lemma upper_not_space: "is_upper_or_digit c \<Longrightarrow> \<not> is_space c"
  unfolding is_upper_or_digit_def is_space_def
  by (auto simp: word_le_nat_alt word_less_nat_alt)

lemma level_tail_head: "c \<noteq> lparen \<Longrightarrow> level_tail (c # r) = None"
  by (simp add: level_tail_def)

lemma level_tail_Nil: "level_tail [] = None"
  by (simp add: level_tail_def)

lemma upper_run:
  "greedy_plus is_upper_or_digit (\<lambda>g3 rest. if rest = [] then Some (g2, g3) else None) s =
     (if s \<noteq> [] \<and> (\<forall>c\<in>set s. is_upper_or_digit c) then Some (g2, s) else None)"
proof (cases s)
  case Nil then show ?thesis by simp
next
  case (Cons c cs)
  have "(\<forall>c\<in>set cs. is_upper_or_digit c) \<Longrightarrow> takeWhile is_upper_or_digit cs = cs"
    by simp
  then show ?thesis using Cons
    by (auto simp: greedy_star_committed)
qed

lemma level_tail_lparen:
  "level_tail (lparen # r) =
     (if takeWhile (\<lambda>c. c \<noteq> rparen) r = [] then None
      else
         (case dropWhile (\<lambda>c. c \<noteq> rparen) r of
            a # b # s \<Rightarrow>
              if b = hyphen \<and> s \<noteq> [] \<and> (\<forall>c\<in>set s. is_upper_or_digit c)
              then Some (takeWhile (\<lambda>c. c \<noteq> rparen) r, s) else None
          | _ \<Rightarrow> None))"
proof (cases r)
  case Nil
  then show ?thesis by (simp add: level_tail_def)
next
  case (Cons d ds)
  show ?thesis
  proof (cases "d = rparen")
    case True
    with Cons show ?thesis by (simp add: level_tail_def)
  next
    case False
    define g2 where "g2 = [d] @ takeWhile (\<lambda>c. c \<noteq> rparen) ds"
    define rest where "rest = dropWhile (\<lambda>c. c \<noteq> rparen) ds"
    have tail: "level_tail (lparen # r) =
        lit rparen (lit hyphen (greedy_plus is_upper_or_digit
          (\<lambda>g3 rest. if rest = [] then Some (g2, g3) else None))) rest"
      unfolding g2_def rest_def using False Cons
      by (simp add: level_tail_def greedy_star_committed)
    have tw: "takeWhile (\<lambda>c. c \<noteq> rparen) r = g2" and dw: "dropWhile (\<lambda>c. c \<noteq> rparen) r = rest"
      using False Cons by (simp_all add: g2_def rest_def)
    have hd: "a = rparen" if "rest = a # x" for a x
      using that unfolding rest_def by (auto simp: dropWhile_eq_Cons_conv)
    have "g2 \<noteq> []" by (simp add: g2_def)
    then show ?thesis
      unfolding tail tw dw
      by (auto simp: upper_run split: list.splits dest: hd)
  qed
qed

lemma unclosed_suffix: "\<not> unclosed (xs @ ys) \<Longrightarrow> \<not> unclosed ys"
  by (induction xs) auto

lemma unclosed_dropWhile: "\<not> unclosed xs \<Longrightarrow> \<not> unclosed (dropWhile P xs)"
  using unclosed_suffix [of "takeWhile P xs" "dropWhile P xs"] by simp

lemma after_spaces:
  "level_after_name g1 s = map_option (\<lambda>(g2, g3). (g1, g2, g3)) (level_tail (dropWhile is_space s))"
proof -
  have "level_tail (c # cs) = None" if "is_space c" for c cs
  proof -
    from that not_space_lparen have "c \<noteq> lparen" by auto
    then show ?thesis by (rule level_tail_head)
  qed
  then show ?thesis
    by (simp add: level_after_name_def greedy_star_committed)
qed

lemma tail_found:
  assumes "\<forall>c\<in>set ws. is_space c" and "\<forall>c\<in>set W. is_space c"
    and "C \<noteq> []" and "rparen \<notin> set C"
    and "S \<noteq> []" and "\<forall>c\<in>set S. is_upper_or_digit c"
  shows "level_tail (dropWhile is_space (ws @ level_rest W C S)) = Some (C, S)"
proof -
  have "dropWhile is_space ((ws @ W) @ lparen # C @ rparen # hyphen # S) =
      dropWhile is_space (lparen # C @ rparen # hyphen # S)"
    by (rule dropWhile_append2) (use assms in auto)
  then have d: "dropWhile is_space (ws @ level_rest W C S) = lparen # C @ rparen # hyphen # S"
    using not_space_lparen by (simp add: level_rest_def)
  have tw: "takeWhile (\<lambda>c. c \<noteq> rparen) (C @ rparen # hyphen # S) = C"
    using assms(4) by (subst takeWhile_append2) auto
  have dw: "dropWhile (\<lambda>c. c \<noteq> rparen) (C @ rparen # hyphen # S) = rparen # hyphen # S"
    using assms(4) by (subst dropWhile_append2) auto
  show ?thesis
    unfolding d level_tail_lparen tw dw using assms(3,5,6) by simp
qed

lemma tail_not_found:
  assumes "\<not> (\<forall>c\<in>set X. is_space c)" and "\<not> unclosed X"
  shows "level_tail (dropWhile is_space (X @ level_rest W C S)) = None"
proof -
  define R where "R = level_rest W C S"
  have lpR: "lparen \<in> set R" by (simp add: R_def level_rest_def)
  from assms(1) have d: "dropWhile is_space (X @ R) = dropWhile is_space X @ R"
    by (auto simp: dropWhile_append1)
  from assms(1) obtain c X' where X': "dropWhile is_space X = c # X'"
    by (cases "dropWhile is_space X") auto
  show ?thesis
  proof (cases "c = lparen")
    case False
    then show ?thesis
      unfolding R_def [symmetric] d X' by (simp add: level_tail_head)
  next
    case True
    from assms(2) have "\<not> unclosed (c # X')"
      using unclosed_dropWhile [of X is_space] X' by simp
    with True have rp: "rparen \<in> set X'" by auto
    then have dw: "dropWhile (\<lambda>c. c \<noteq> rparen) (X' @ R) = dropWhile (\<lambda>c. c \<noteq> rparen) X' @ R"
      by (auto simp: dropWhile_append1)
    from rp obtain a Y where Y: "dropWhile (\<lambda>c. c \<noteq> rparen) X' = a # Y"
      by (cases "dropWhile (\<lambda>c. c \<noteq> rparen) X'") auto
    have no: "\<not> (b = hyphen \<and> s \<noteq> [] \<and> (\<forall>c\<in>set s. is_upper_or_digit c))"
      if "Y @ R = b # s" for b s
    proof
      assume h: "b = hyphen \<and> s \<noteq> [] \<and> (\<forall>c\<in>set s. is_upper_or_digit c)"
      from lpR that have "lparen \<in> set (b # s)"
        by (metis Un_iff set_append)
      with h have "lparen \<in> set s"
        by (auto simp: lparen_def hyphen_def)
      with h show False using not_upper_lparen by blast
    qed
    show ?thesis
      unfolding R_def [symmetric] d X' True append_Cons level_tail_lparen dw Y
      using no by (auto split: list.splits)
  qed
qed

lemma lazy_scan:
  assumes "\<forall>c\<in>set N. \<not> is_line_terminator c" and "\<not> unclosed N"
    and "\<forall>c\<in>set W. is_space c"
    and "C \<noteq> []" and "rparen \<notin> set C"
    and "S \<noteq> []" and "\<forall>c\<in>set S. is_upper_or_digit c"
  shows "\<exists>g. lazy_star (\<lambda>c. \<not> is_line_terminator c) level_after_name
           acc (N @ level_rest W C S) = Some (g, C, S) \<and> trim g = trim (acc @ N)"
  using assms(1,2)
proof (induction N arbitrary: acc)
  case Nil
  have "level_tail (dropWhile is_space ([] @ level_rest W C S)) = Some (C, S)"
    by (rule tail_found) (use assms in simp_all)
  then have "level_after_name acc (level_rest W C S) = Some (acc, C, S)"
    by (simp add: after_spaces)
  moreover obtain r rs where "level_rest W C S = r # rs"
    by (cases "level_rest W C S") (simp_all add: level_rest_def)
  ultimately show ?case
    by simp
next
  case (Cons c N')
  show ?case
  proof (cases "\<forall>x\<in>set (c # N'). is_space x")
    case True
    have "level_tail (dropWhile is_space ((c # N') @ level_rest W C S)) = Some (C, S)"
      by (rule tail_found) (use assms True in simp_all)
    then have "level_after_name acc (c # N' @ level_rest W C S) = Some (acc, C, S)"
      by (simp add: after_spaces del: dropWhile.simps dropWhile_append)
    then have "lazy_star (\<lambda>c. \<not> is_line_terminator c) level_after_name
           acc ((c # N') @ level_rest W C S) = Some (acc, C, S)"
      by simp
    moreover have "trim (acc @ c # N') = trim acc"
      by (rule trim_append_spaces) (use True in simp)
    ultimately show ?thesis by simp
  next
    case False
    have "level_tail (dropWhile is_space ((c # N') @ level_rest W C S)) = None"
      by (rule tail_not_found) (use False Cons.prems in simp_all)
    then have none: "level_after_name acc (c # N' @ level_rest W C S) = None"
      by (simp add: after_spaces del: dropWhile.simps dropWhile_append)
    from Cons.prems have "\<forall>c\<in>set N'. \<not> is_line_terminator c" and "\<not> unclosed N'"
      by auto
    from Cons.IH [OF this, of "acc @ [c]"] obtain g where
      g: "lazy_star (\<lambda>c. \<not> is_line_terminator c) level_after_name
           (acc @ [c]) (N' @ level_rest W C S) = Some (g, C, S)"
        and "trim g = trim ((acc @ [c]) @ N')"
      by blast
    moreover from Cons.prems have "\<not> is_line_terminator c" by simp
    ultimately show ?thesis using none
      by simp
  qed
qed

text \<open>A match of the regular expression has the shape the format describes.\<close>

lemma lazy_star_sound:
  "lazy_star p k acc s = Some r \<Longrightarrow> \<exists>xs ys. s = xs @ ys \<and> k (acc @ xs) ys = Some r"
proof (induction s arbitrary: acc)
  case Nil
  then show ?case by simp
next
  case (Cons c cs)
  show ?case
  proof (cases "k acc (c # cs)")
    case (Some r')
    with Cons.prems have "k (acc @ []) ([] @ c # cs) = Some r" by simp
    then show ?thesis by (metis append_Nil)
  next
    case None
    with Cons.prems have "lazy_star p k (acc @ [c]) cs = Some r"
      by (simp split: if_splits)
    from Cons.IH [OF this] obtain xs ys where "cs = xs @ ys" "k ((acc @ [c]) @ xs) ys = Some r"
      by blast
    then have "c # cs = (c # xs) @ ys \<and> k (acc @ c # xs) ys = Some r" by simp
    then show ?thesis by blast
  qed
qed

lemma level_regex_sound:
  assumes "level_regex s = Some (g1, g2, g3)"
  shows "\<exists>W. s = g1 @ level_rest W g2 g3 \<and> g1 \<noteq> [] \<and> g2 \<noteq> [] \<and> g3 \<noteq> [] \<and>
     (\<forall>c\<in>set g3. is_upper_or_digit c)"
proof -
  from assms obtain c s' where s: "s = c # s'"
    and l: "lazy_star (\<lambda>c. \<not> is_line_terminator c) level_after_name [c] s' = Some (g1, g2, g3)"
    by (cases s) (simp_all add: level_regex_def split: if_splits)
  from lazy_star_sound [OF l] obtain xs ys where s': "s' = xs @ ys"
    and k: "level_after_name ([c] @ xs) ys = Some (g1, g2, g3)"
    by blast
  from k have g1: "g1 = c # xs" and t: "level_tail (dropWhile is_space ys) = Some (g2, g3)"
    by (auto simp: after_spaces)
  from t obtain d r where d: "dropWhile is_space ys = d # r"
    by (cases "dropWhile is_space ys") (simp_all add: level_tail_Nil)
  with t have dl: "d = lparen"
    using level_tail_head [of d r] by (cases "d = lparen") simp_all
  from t have t': "level_tail (lparen # r) = Some (g2, g3)"
    by (simp add: d dl)
  then have g2: "takeWhile (\<lambda>c. c \<noteq> rparen) r = g2" and ne: "g2 \<noteq> []"
    by (auto simp: level_tail_lparen split: if_splits list.splits)
  from t' obtain a where dr: "dropWhile (\<lambda>c. c \<noteq> rparen) r = a # hyphen # g3"
    and g3: "g3 \<noteq> []" "\<forall>c\<in>set g3. is_upper_or_digit c"
    by (auto simp: level_tail_lparen split: if_splits list.splits)
  from dr have a: "a = rparen"
    by (auto simp: dropWhile_eq_Cons_conv)
  have "r = takeWhile (\<lambda>c. c \<noteq> rparen) r @ dropWhile (\<lambda>c. c \<noteq> rparen) r"
    by simp
  then have r: "r = g2 @ rparen # hyphen # g3"
    by (simp only: g2 dr a)
  have "ys = takeWhile is_space ys @ dropWhile is_space ys"
    by simp
  then have "ys = level_rest (takeWhile is_space ys) g2 g3"
    by (simp only: d dl r level_rest_def)
  with s s' g1 ne g3 show ?thesis by auto
qed

lemma trim_spaces:
  assumes "\<forall>c\<in>set s. is_space c"
  shows "trim s = []"
proof -
  from assms have d: "dropWhile is_space s = []" by simp
  show ?thesis unfolding trim_def d by simp
qed

section \<open>parseLevel\<close>

text \<open>
  C2, as the code has it.  Let the input be \<open>N @ W @ ''('' @ C @ '')-'' @ S\<close> where the name
  part \<open>N\<close> is not empty, has no line terminator and no unclosed parenthesis, \<open>W\<close> is
  white space, the code \<open>C\<close> is not empty and has no \<open>)\<close>, and the suffix \<open>S\<close> is one or
  more upper-case letters or digits.  Then \<open>parseLevel\<close> returns the name part trimmed,
  the code trimmed, the suffix, and the input itself as \<open>raw\<close>.
\<close>

theorem parseLevel_match:
  assumes "N \<noteq> []" and "\<forall>c\<in>set N. \<not> is_line_terminator c" and "\<not> unclosed N"
    and "\<forall>c\<in>set W. is_space c"
    and "C \<noteq> []" and "rparen \<notin> set C"
    and "S \<noteq> []" and "\<forall>c\<in>set S. is_upper_or_digit c"
  shows "parseLevel (Some (N @ level_rest W C S)) =
     Some \<lparr>name = trim N, buCode = trim C, beblCode = S, raw = N @ level_rest W C S\<rparr>"
proof -
  from assms(1) obtain c N' where N: "N = c # N'" by (cases N) auto
  with assms(2,3) have "\<forall>c\<in>set N'. \<not> is_line_terminator c" and "\<not> unclosed N'"
    and c: "\<not> is_line_terminator c"
    by auto
  from lazy_scan [OF this(1,2) assms(4-8), of "[c]"] obtain g where
    "lazy_star (\<lambda>c. \<not> is_line_terminator c) level_after_name
           [c] (N' @ level_rest W C S) = Some (g, C, S)" and "trim g = trim ([c] @ N')"
    by blast
  with c N have "level_regex (N @ level_rest W C S) = Some (g, C, S)" and "trim g = trim N"
    by (simp_all add: level_regex_def)
  moreover have "trim S = S"
    by (rule trim_no_space) (use assms(8) upper_not_space in blast)
  ultimately show ?thesis
    using N by (simp add: parseLevel_def)
qed

theorem parseLevel_match_witness:
  "js ''Finity Group, LLC'' \<noteq> [] \<and> \<not> unclosed (js ''Finity Group, LLC'') \<and>
   list_all is_upper_or_digit (js ''WN8'') \<and>
   js ''Finity Group, LLC (06921)-WN8'' =
     js ''Finity Group, LLC'' @ level_rest (js '' '') (js ''06921'') (js ''WN8'') \<and>
   parseLevel (Some (js ''Finity Group, LLC (06921)-WN8'')) =
     Some \<lparr>name = js ''Finity Group, LLC'', buCode = js ''06921'', beblCode = js ''WN8'',
           raw = js ''Finity Group, LLC (06921)-WN8''\<rparr>"
  using parseLevel_match [of "js ''Finity Group, LLC''" "js '' ''" "js ''06921''" "js ''WN8''"]
  by (simp add: js_def is_line_terminator_def is_space_def is_upper_or_digit_def
      lparen_def rparen_def hyphen_def trim_def level_rest_def)

text \<open>
  C2, as the claim states it, fails: the suffix \<open>abc\<close> is alphanumeric, the input
  \<open>Foo (9)-abc\<close> has the form \<open>Name (Code)-Suffix\<close>, and \<open>parseLevel\<close> returns the
  fallback, whose name is the whole input and whose code and suffix are empty.
\<close>

theorem parseLevel_lowercase_suffix_counterexample:
  "list_all is_alphanumeric (js ''abc'') \<and>
   js ''Foo (9)-abc'' = js ''Foo'' @ level_rest (js '' '') (js ''9'') (js ''abc'') \<and>
   parseLevel (Some (js ''Foo (9)-abc'')) =
     Some \<lparr>name = js ''Foo (9)-abc'', buCode = [], beblCode = [], raw = js ''Foo (9)-abc''\<rparr> \<and>
   parseLevel (Some (js ''Foo (9)-abc'')) \<noteq>
     Some \<lparr>name = js ''Foo'', buCode = js ''9'', beblCode = js ''abc'', raw = js ''Foo (9)-abc''\<rparr>"
  by (simp add: parseLevel_def level_regex_def level_after_name_def level_tail_def js_def
      is_line_terminator_def is_space_def is_upper_or_digit_def is_alphanumeric_def
      lparen_def rparen_def hyphen_def trim_def level_rest_def)

text \<open>
  C3.  For an absent or empty input \<open>parseLevel\<close> returns \<open>null\<close>.  For a non-empty string
  it never returns \<open>null\<close> (and the model has no failing branch, as the code has no
  \<open>throw\<close>); when the regular expression does not match, the result is the fallback: the
  trimmed input as name, empty code and suffix, the input itself as \<open>raw\<close>.  This is so in
  particular for every non-empty string that is not a non-empty name, white space, and
  \<open>(Code)-Suffix\<close> with a non-empty code and a non-empty alphanumeric suffix.  The string
  \<open>Foo (9)-\<close> is such an input.
\<close>

theorem parseLevel_fallback:
  "parseLevel None = None \<and> parseLevel (Some []) = None \<and>
   (s \<noteq> [] \<longrightarrow> parseLevel (Some s) \<noteq> None) \<and>
   (s \<noteq> [] \<and> level_regex s = None \<longrightarrow>
      parseLevel (Some s) = Some \<lparr>name = trim s, buCode = [], beblCode = [], raw = s\<rparr>) \<and>
   (s \<noteq> [] \<and>
    \<not> (\<exists>N W C S. s = N @ level_rest W C S \<and> N \<noteq> [] \<and> C \<noteq> [] \<and> S \<noteq> [] \<and>
           (\<forall>c\<in>set S. is_alphanumeric c)) \<longrightarrow>
      parseLevel (Some s) = Some \<lparr>name = trim s, buCode = [], beblCode = [], raw = s\<rparr>) \<and>
   parseLevel (Some (js ''Foo (9)-'')) =
     Some \<lparr>name = js ''Foo (9)-'', buCode = [], beblCode = [], raw = js ''Foo (9)-''\<rparr>"
proof -
  have ex: "parseLevel (Some (js ''Foo (9)-'')) =
     Some \<lparr>name = js ''Foo (9)-'', buCode = [], beblCode = [], raw = js ''Foo (9)-''\<rparr>"
    by (simp add: parseLevel_def level_regex_def level_after_name_def level_tail_def js_def
        is_line_terminator_def is_space_def is_upper_or_digit_def
        lparen_def rparen_def hyphen_def trim_def)
  have fb: "parseLevel (Some s) = Some \<lparr>name = trim s, buCode = [], beblCode = [], raw = s\<rparr>"
    if "s \<noteq> []" and "level_regex s = None"
    using that by (simp add: parseLevel_def)
  have shape: "level_regex s = None"
    if no: "\<not> (\<exists>N W C S. s = N @ level_rest W C S \<and> N \<noteq> [] \<and> C \<noteq> [] \<and> S \<noteq> [] \<and>
           (\<forall>c\<in>set S. is_alphanumeric c))"
  proof (cases "level_regex s")
    case None
    then show ?thesis .
  next
    case (Some g)
    obtain g1 g2 g3 where "g = (g1, g2, g3)" by (cases g)
    with Some have "level_regex s = Some (g1, g2, g3)" by simp
    from level_regex_sound [OF this] obtain W where
      "s = g1 @ level_rest W g2 g3" "g1 \<noteq> []" "g2 \<noteq> []" "g3 \<noteq> []"
      "\<forall>c\<in>set g3. is_upper_or_digit c"
      by blast
    moreover from this(5) have "\<forall>c\<in>set g3. is_alphanumeric c"
      by (simp add: is_alphanumeric_def)
    ultimately show ?thesis using no by blast
  qed
  have nn: "parseLevel (Some s) \<noteq> None" if "s \<noteq> []"
    using that by (simp add: parseLevel_def split: option.splits)
  have absent: "parseLevel None = None" and empty: "parseLevel (Some []) = None"
    by (simp_all add: parseLevel_def)
  show ?thesis
  proof (intro conjI impI)
    show "parseLevel None = None" by (rule absent)
    show "parseLevel (Some []) = None" by (rule empty)
    show "parseLevel (Some s) \<noteq> None" if "s \<noteq> []"
      using that by (rule nn)
    show "parseLevel (Some s) = Some \<lparr>name = trim s, buCode = [], beblCode = [], raw = s\<rparr>"
      if "s \<noteq> [] \<and> level_regex s = None"
      using that fb by blast
    show "parseLevel (Some s) = Some \<lparr>name = trim s, buCode = [], beblCode = [], raw = s\<rparr>"
      if "s \<noteq> [] \<and>
        \<not> (\<exists>N W C S. s = N @ level_rest W C S \<and> N \<noteq> [] \<and> C \<noteq> [] \<and> S \<noteq> [] \<and>
           (\<forall>c\<in>set S. is_alphanumeric c))"
    proof -
      from that have "level_regex s = None" by (intro shape) blast
      with that show ?thesis by (intro fb) blast
    qed
    show "parseLevel (Some (js ''Foo (9)-'')) =
      Some \<lparr>name = js ''Foo (9)-'', buCode = [], beblCode = [], raw = js ''Foo (9)-''\<rparr>"
      by (rule ex)
  qed
qed

theorem parseLevel_fallback_witness:
  "js ''Foo (9)'' \<noteq> [] \<and> level_regex (js ''Foo (9)'') = None \<and>
   parseLevel (Some (js ''Foo (9)'')) =
     Some \<lparr>name = js ''Foo (9)'', buCode = [], beblCode = [], raw = js ''Foo (9)''\<rparr>"
proof -
  have "level_regex (js ''Foo (9)'') = None"
    by (simp add: level_regex_def level_after_name_def level_tail_def js_def
        is_line_terminator_def is_space_def is_upper_or_digit_def lparen_def rparen_def hyphen_def)
  moreover have "trim (js ''Foo (9)'') = js ''Foo (9)''"
    by (simp add: trim_def js_def is_space_def)
  moreover have "js ''Foo (9)'' \<noteq> []"
    by (simp add: js_def)
  ultimately show ?thesis
    using parseLevel_fallback [of "js ''Foo (9)''"] by simp
qed

section \<open>searchNodes\<close>

text \<open>
  C10.  When the query is empty or has white space only, \<open>searchNodes\<close> returns the empty
  list, whatever the records are.
\<close>

theorem searchNodes_blank:
  assumes "\<forall>c\<in>set searchTerm. is_space c"
  shows "searchNodes toLowerCase searchTerm searchResults = []"
  using trim_spaces [OF assms] by (simp add: searchNodes_def)

theorem searchNodes_blank_witness:
  "list_all is_space (js ''  '') \<and>
   searchNodes (\<lambda>s. s) (js ''  '')
     [\<lparr>name_result = js ''  '', buCode_result = None, beblCode_result = None,
       beblFullName_result = None, rawLabel_result = Some (js ''  ''), path_result = js ''  '',
       value_result = 1, level_result = 0\<rparr>] = []"
proof -
  have sp: "\<forall>c\<in>set (js ''  ''). is_space c"
    by (simp add: js_def is_space_def)
  from searchNodes_blank [OF sp] sp show ?thesis by (simp add: list_all_iff)
qed

section \<open>extractPath\<close>

lemma parseLevel_Some:
  assumes "\<not> falsy level"
  shows "\<exists>parsed. parseLevel level = Some parsed \<and> level = Some (raw parsed)"
proof -
  from assms obtain s where s: "level = Some s" "s \<noteq> []"
    by (cases level) (auto simp: falsy_def)
  show ?thesis
  proof (cases "level_regex s")
    case None
    with s show ?thesis by (simp add: parseLevel_def)
  next
    case (Some g)
    with s show ?thesis by (cases g) (simp add: parseLevel_def)
  qed
qed

lemma raw_extract_levels:
  "map raw (extract_levels ls) = map the (takeWhile (\<lambda>level. \<not> falsy level) ls)"
proof (induction ls)
  case Nil
  then show ?case by simp
next
  case (Cons level rest)
  show ?case
  proof (cases "falsy level")
    case True
    then show ?thesis by simp
  next
    case False
    then obtain parsed where "parseLevel level = Some parsed" and "level = Some (raw parsed)"
      using parseLevel_Some by blast
    with False Cons.IH show ?thesis by simp
  qed
qed

lemma add_row_empty_path: "extractPath row = [] \<Longrightarrow> add_row arith m tree row = tree"
  by (simp add: add_row_def)

lemma extract_levels_parse:
  "extract_levels ls = map (\<lambda>level. the (parseLevel level)) (takeWhile (\<lambda>level. \<not> falsy level) ls)"
proof (induction ls)
  case Nil
  then show ?case by simp
next
  case (Cons level rest)
  show ?case
  proof (cases "falsy level")
    case True
    then show ?thesis by simp
  next
    case False
    then obtain parsed where "parseLevel level = Some parsed"
      using parseLevel_Some by blast
    with False Cons.IH show ?thesis by simp
  qed
qed

lemma raw_extractPath:
  "map raw (extractPath row) =
     map the
       (takeWhile (\<lambda>level. level \<noteq> None \<and> level \<noteq> Some [])
          [level0 row, level1 row, level2 row, level3 row, level4 row, level5 row,
           level6 row, level7 row, level8 row, level9 row, level10 row])"
proof -
  have "(\<lambda>level. \<not> falsy level) = (\<lambda>level. level \<noteq> None \<and> level \<noteq> Some [])"
    by (rule ext) (simp add: falsy_def)
  then show ?thesis
    by (simp only: extractPath_def raw_extract_levels levels_def)
qed

text \<open>
  C4.  The effective path of a row is made of the fields \<open>level0\<close>, \<open>level1\<close>, ...,
  \<open>level10\<close> of the row, from the left up to, and without, the first field that is
  missing or empty: its raw strings are these fields, and its entries are what
  \<open>parseLevel\<close> makes of them.  What comes after that field is not looked at.  A row
  whose first level is missing or empty has an empty path, and the tree built from any
  row sequence is the same with and without such a row.
\<close>

theorem extractPath_gap_rule:
  "map raw (extractPath row) =
     map the
       (takeWhile (\<lambda>level. level \<noteq> None \<and> level \<noteq> Some [])
          [level0 row, level1 row, level2 row, level3 row, level4 row, level5 row,
           level6 row, level7 row, level8 row, level9 row, level10 row]) \<and>
   extractPath row =
     map (\<lambda>level. the (parseLevel level))
       (takeWhile (\<lambda>level. level \<noteq> None \<and> level \<noteq> Some [])
          [level0 row, level1 row, level2 row, level3 row, level4 row, level5 row,
           level6 row, level7 row, level8 row, level9 row, level10 row]) \<and>
   (level0 row = None \<or> level0 row = Some [] \<longrightarrow>
      extractPath row = [] \<and>
      transformToHierarchy arith (before @ row # after) m =
        transformToHierarchy arith (before @ after) m)"
proof -
  have f: "(\<lambda>level. \<not> falsy level) = (\<lambda>level. level \<noteq> None \<and> level \<noteq> Some [])"
    by (rule ext) (simp add: falsy_def)
  have "extractPath row =
     map (\<lambda>level. the (parseLevel level))
       (takeWhile (\<lambda>level. level \<noteq> None \<and> level \<noteq> Some [])
          [level0 row, level1 row, level2 row, level3 row, level4 row, level5 row,
           level6 row, level7 row, level8 row, level9 row, level10 row])"
    by (simp only: extractPath_def extract_levels_parse levels_def f)
  moreover have "extractPath row = []" if "level0 row = None \<or> level0 row = Some []"
    using that by (auto simp: extractPath_def levels_def falsy_def)
  moreover have
    "transformToHierarchy arith (before @ row # after) m =
       transformToHierarchy arith (before @ after) m"
    if "extractPath row = []"
    using that by (simp add: transformToHierarchy_def add_row_empty_path)
  ultimately show ?thesis
    using raw_extractPath [of row] by blast
qed

theorem extractPath_gap_rule_witness:
  "level0 gap_row = None \<and> level1 gap_row = Some (js ''X (1)-Y'') \<and> extractPath gap_row = [] \<and>
   transformToHierarchy ieee [gap_row] None = root_node \<and>
   level1 later_gap_row = None \<and> level2 later_gap_row = Some (js ''C (3)-Z'') \<and>
   map raw (extractPath later_gap_row) = [js ''A (1)-X''] \<and>
   map name (extractPath later_gap_row) = [js ''A'']"
proof -
  have g: "level0 gap_row = None" "level1 gap_row = Some (js ''X (1)-Y'')"
    by (simp_all add: gap_row_def)
  from extractPath_gap_rule [of gap_row ieee "[]" "[]" None] g
  have "extractPath gap_row = []" and "transformToHierarchy ieee [gap_row] None = root_node"
    by (simp_all add: transformToHierarchy_def)
  moreover have "level1 later_gap_row = None" "level2 later_gap_row = Some (js ''C (3)-Z'')"
    by (simp_all add: later_gap_row_def)
  moreover have "map raw (extractPath later_gap_row) = [js ''A (1)-X'']"
  proof -
    from extractPath_gap_rule [of later_gap_row ieee "[]" "[]" None]
    have "map raw (extractPath later_gap_row) =
        map the
          (takeWhile (\<lambda>level. level \<noteq> None \<and> level \<noteq> Some [])
             [level0 later_gap_row, level1 later_gap_row, level2 later_gap_row,
              level3 later_gap_row, level4 later_gap_row, level5 later_gap_row,
              level6 later_gap_row, level7 later_gap_row, level8 later_gap_row,
              level9 later_gap_row, level10 later_gap_row])"
      by (rule conjunct1)
    also have "\<dots> = [js ''A (1)-X'']"
      by code_simp
    finally show ?thesis .
  qed
  moreover have "map name (extractPath later_gap_row) = [js ''A'']"
    by code_simp
  ultimately show ?thesis using g by blast
qed

section \<open>flattenHierarchy\<close>

text \<open>
  C1.  The documentation of the \<open>value\<close> of a node reads "leaf nodes only, aggregated for
  parents", and the aggregate of a node is the sum of the direct values over its
  subtree.  \<open>flattenHierarchy\<close> copies \<open>node.value || 0\<close>, the node's own direct value.  The
  rows \<open>(100, [A (1)-X, B (2)-Y])\<close> and \<open>(200, [A (1)-X, C (3)-Z])\<close> give three nodes below
  the root, with one record each; the subtree of \<open>A (1)-X\<close> sums to 300 and its record
  has the value 0.
\<close>

theorem flattenHierarchy_parent_value:
  "map path_result (flattenHierarchy example_tree []) =
     [js ''A (1)-X'', js ''A (1)-X|B (2)-Y'', js ''A (1)-X|C (3)-Z''] \<and>
   map (\<lambda>n. path_node (info n)) (tl (nodes example_tree)) =
     [js ''A (1)-X'', js ''A (1)-X|B (2)-Y'', js ''A (1)-X|C (3)-Z''] \<and>
   map value_result (flattenHierarchy example_tree []) = [0, 100, 200] \<and>
   map subtree_sum (tl (nodes example_tree)) = [300, 100, 200]"
  by code_simp

section \<open>handleSearchSelect\<close>

text \<open>
  C7.  When the path of the selected record is not found in the tree, or is found at a
  node without children, \<open>handleSearchSelect\<close> returns the state it was given: focus and
  breadcrumbs stay.  A changed state means the node was found and has a child, and then
  the focus is the path of the record.
\<close>

theorem handleSearchSelect_noop:
  "(findNodeByPath tree (path_result result) = None \<or>
    (\<exists>n. findNodeByPath tree (path_result result) = Some n \<and> children n = []) \<longrightarrow>
      handleSearchSelect (Some tree) result st = st) \<and>
   (handleSearchSelect hierarchyData result st \<noteq> st \<longrightarrow>
      (\<exists>t n. hierarchyData = Some t \<and> findNodeByPath t (path_result result) = Some n \<and>
         children n \<noteq> [])) \<and>
   (\<forall>n. findNodeByPath tree (path_result result) = Some n \<and> children n \<noteq> [] \<longrightarrow>
      focusedPath (handleSearchSelect (Some tree) result st) = Some (path_result result))"
  by (auto simp: handleSearchSelect_def split: option.splits)

theorem handleSearchSelect_noop_witness:
  "findNodeByPath example_tree (js ''Z (9)-Q'') = None \<and>
   handleSearchSelect (Some example_tree) (result_at (js ''Z (9)-Q'')) no_focus = no_focus \<and>
   map_option children (findNodeByPath example_tree (js ''A (1)-X|B (2)-Y'')) = Some [] \<and>
   handleSearchSelect (Some example_tree) (result_at (js ''A (1)-X|B (2)-Y'')) no_focus = no_focus \<and>
   focusedPath (handleSearchSelect (Some example_tree) (result_at (js ''A (1)-X'')) no_focus) =
     Some (js ''A (1)-X'')"
proof -
  have nf: "findNodeByPath example_tree (path_result (result_at (js ''Z (9)-Q''))) = None"
    by code_simp
  have "handleSearchSelect (Some example_tree) (result_at (js ''Z (9)-Q'')) no_focus = no_focus"
    using handleSearchSelect_noop [of example_tree "result_at (js ''Z (9)-Q'')" no_focus] nf
    by blast
  moreover have "findNodeByPath example_tree (js ''Z (9)-Q'') = None"
    using nf by (simp add: result_at_def)
  moreover have "map_option children (findNodeByPath example_tree (js ''A (1)-X|B (2)-Y'')) = Some []"
    by code_simp
  moreover have
    "handleSearchSelect (Some example_tree) (result_at (js ''A (1)-X|B (2)-Y'')) no_focus = no_focus"
    by code_simp
  moreover have
    "focusedPath (handleSearchSelect (Some example_tree) (result_at (js ''A (1)-X'')) no_focus) =
     Some (js ''A (1)-X'')"
    by code_simp
  ultimately show ?thesis by blast
qed

section \<open>The weights of the layout\<close>

lemma subtree_sum_node:
  "subtree_sum (HierarchyNode f cs) = value_or0 (value_node f) + sum_list (map subtree_sum cs)"
proof -
  have "sum_list (map direct (nodes_in cs)) = sum_list (map subtree_sum cs)"
    by (induction cs) (simp_all add: subtree_sum_def)
  then show ?thesis by (simp add: subtree_sum_def direct_def)
qed

lemma value_hierarchy_sum: "value_layout (hierarchy_sum d t) = subtree_sum t"
proof (induction d t rule: hierarchy_sum.induct)
  case (1 d f cs)
  then have "sum_list (map (\<lambda>c. value_layout (hierarchy_sum (d + 1) c)) cs) =
      sum_list (map subtree_sum cs)"
    by (intro arg_cong [where f = sum_list] map_cong) auto
  then show ?case by (simp add: subtree_sum_node)
qed

lemma data_hierarchy_sum: "data_layout (hierarchy_sum d t) = t"
  by (cases t) simp

lemma layout_nodes_hierarchy_sum:
  "lnode \<in> set (layout_nodes (hierarchy_sum d t)) \<Longrightarrow> weighted lnode"
proof (induction d t arbitrary: lnode rule: hierarchy_sum.induct)
  case (1 d f cs)
  from "1.prems" consider "lnode = hierarchy_sum d (HierarchyNode f cs)"
    | c where "c \<in> set cs" "lnode \<in> set (layout_nodes (hierarchy_sum (d + 1) c))"
    by auto
  then show ?case
  proof cases
    case 1
    then show ?thesis
      unfolding weighted_def by (simp only: value_hierarchy_sum data_hierarchy_sum)
  next
    case 2
    then show ?thesis using "1.IH" by blast
  qed
qed

lemma nodes_in_concat: "nodes_in cs = concat (map nodes cs)"
  by (induction cs) simp_all

lemma data_layout_nodes_hierarchy_sum:
  "map data_layout (layout_nodes (hierarchy_sum d t)) = nodes t"
proof (induction d t rule: hierarchy_sum.induct)
  case (1 d f cs)
  then have "map (\<lambda>c. map data_layout (layout_nodes (hierarchy_sum (d + 1) c))) cs = map nodes cs"
    by (intro map_cong) auto
  then have "concat (map (\<lambda>c. map data_layout (layout_nodes (hierarchy_sum (d + 1) c))) cs) =
      nodes_in cs"
    by (simp only: nodes_in_concat)
  then show ?case
    by (simp add: map_concat comp_def)
qed

lemma layout_nodes_hierarchy_sort:
  "(\<lambda>l. (data_layout l, value_layout l)) ` set (layout_nodes (hierarchy_sort t)) =
   (\<lambda>l. (data_layout l, value_layout l)) ` set (layout_nodes t)"
proof (induction t rule: hierarchy_sort.induct)
  case (1 n d v kids)
  have "(\<Union>k\<in>set kids. (\<lambda>l. (data_layout l, value_layout l)) ` set (layout_nodes (hierarchy_sort k))) =
        (\<Union>k\<in>set kids. (\<lambda>l. (data_layout l, value_layout l)) ` set (layout_nodes k))"
    using "1.IH" by simp
  then show ?case
    by (simp add: image_UN)
qed

lemma nodes_at_depth_layout_nodes:
  "l \<in> set (nodes_at_depth k t) \<Longrightarrow> l \<in> set (layout_nodes t)"
proof (induction k t rule: nodes_at_depth.induct)
  case (1 t)
  then show ?case by (cases t) simp
next
  case (2 k n d v kids)
  then show ?case by auto
qed

lemma height_layout_child: "c \<in> set kids \<Longrightarrow> f c \<le> foldr max (map f kids) (0 :: nat)"
  by (induction kids) auto

lemma layout_nodes_at_depth:
  "l \<in> set (layout_nodes t) \<Longrightarrow> \<exists>k \<le> height_layout t. l \<in> set (nodes_at_depth k t)"
proof (induction t rule: layout_nodes.induct)
  case (1 n d v kids)
  show ?case
  proof (cases "l = LayoutNode n d v kids")
    case True
    then have "l \<in> set (nodes_at_depth 0 (LayoutNode n d v kids))"
      by simp
    then show ?thesis by blast
  next
    case False
    with "1.prems" obtain c where c: "c \<in> set kids" "l \<in> set (layout_nodes c)"
      by auto
    with "1.IH" obtain k where k: "k \<le> height_layout c" "l \<in> set (nodes_at_depth k c)"
      by blast
    from c(1) have "Suc (height_layout c) \<le> height_layout (LayoutNode n d v kids)"
      using height_layout_child [of c kids "\<lambda>k. Suc (height_layout k)"] by simp
    with k(1) have "Suc k \<le> height_layout (LayoutNode n d v kids)"
      by simp
    moreover from c(1) k(2) have "l \<in> set (nodes_at_depth (Suc k) (LayoutNode n d v kids))"
      by auto
    ultimately show ?thesis by blast
  qed
qed

text \<open>The breadth-first list has the nodes of the subtree, in another order.\<close>

lemma set_descendants: "set (descendants t) = set (layout_nodes t)"
proof
  show "set (descendants t) \<subseteq> set (layout_nodes t)"
    by (auto simp: descendants_def dest: nodes_at_depth_layout_nodes)
  show "set (layout_nodes t) \<subseteq> set (descendants t)"
  proof
    fix l
    assume "l \<in> set (layout_nodes t)"
    then obtain k where "k \<le> height_layout t" and "l \<in> set (nodes_at_depth k t)"
      using layout_nodes_at_depth by blast
    then have "k \<in> set [0..<Suc (height_layout t)]" and "l \<in> set (nodes_at_depth k t)"
      by auto
    then show "l \<in> set (descendants t)"
      unfolding descendants_def by (simp only: set_concat set_map) blast
  qed
qed

lemma leaf_subtree_sum: "children n = [] \<Longrightarrow> subtree_sum n = value_or0 (value_node (info n))"
  by (cases n) (simp add: subtree_sum_node)

text \<open>
  C6.  For every tree and every focus path, the layout has a node for each node of the
  focused subtree and for no other, and each layout node carries the sum of the direct
  values over the subtree of its own node, that node included; for a node without
  children this is its own direct value, 0 when it has none.
\<close>

theorem layout_aggregate_weight:
  "data_layout ` set (descendants (layout_hierarchy tree fp)) = set (nodes (focusedNode tree fp)) \<and>
   (\<forall>lnode\<in>set (descendants (layout_hierarchy tree fp)).
      value_layout lnode = subtree_sum (data_layout lnode) \<and>
      (children (data_layout lnode) = [] \<longrightarrow>
         value_layout lnode = value_or0 (value_node (info (data_layout lnode)))))"
proof -
  let ?h = "hierarchy_sum 0 (focusedNode tree fp)"
  let ?p = "\<lambda>l. (data_layout l, value_layout l)"
  have eq: "?p ` set (descendants (layout_hierarchy tree fp)) = ?p ` set (layout_nodes ?h)"
    unfolding layout_hierarchy_def set_descendants by (rule layout_nodes_hierarchy_sort)
  have "fst ` ?p ` set (descendants (layout_hierarchy tree fp)) = fst ` ?p ` set (layout_nodes ?h)"
    by (simp only: eq)
  then have "data_layout ` set (descendants (layout_hierarchy tree fp)) =
      data_layout ` set (layout_nodes ?h)"
    by (simp add: image_image)
  also have "\<dots> = set (map data_layout (layout_nodes ?h))"
    by simp
  also have "\<dots> = set (nodes (focusedNode tree fp))"
    by (simp only: data_layout_nodes_hierarchy_sum)
  finally have covers: "data_layout ` set (descendants (layout_hierarchy tree fp)) =
      set (nodes (focusedNode tree fp))" .
  have w: "weighted lnode" if "lnode \<in> set (descendants (layout_hierarchy tree fp))" for lnode
  proof -
    from that have "?p lnode \<in> ?p ` set (layout_nodes ?h)"
      using eq by blast
    then obtain l' where "l' \<in> set (layout_nodes ?h)" and "?p lnode = ?p l'"
      by blast
    then show ?thesis
      using layout_nodes_hierarchy_sum [of l' 0 "focusedNode tree fp"] by (simp add: weighted_def)
  qed
  show ?thesis
    using covers w by (auto simp: weighted_def leaf_subtree_sum)
qed

theorem layout_aggregate_weight_witness:
  "value_layout (hd (descendants (layout_hierarchy example_tree (Some (js ''A (1)-X''))))) =
     subtree_sum (data_layout (hd (descendants (layout_hierarchy example_tree (Some (js ''A (1)-X'')))))) \<and>
   map value_layout (descendants (layout_hierarchy example_tree None)) = [300, 300, 200, 100] \<and>
   map value_layout (descendants (layout_hierarchy example_tree (Some (js ''A (1)-X'')))) =
     [300, 200, 100]"
proof -
  let ?L = "layout_hierarchy example_tree (Some (js ''A (1)-X''))"
  have "descendants ?L \<noteq> []"
    by code_simp
  then have "hd (descendants ?L) \<in> set (descendants ?L)"
    by simp
  with layout_aggregate_weight [of example_tree "Some (js ''A (1)-X'')"]
  have "value_layout (hd (descendants ?L)) = subtree_sum (data_layout (hd (descendants ?L)))"
    by blast
  moreover have "map value_layout (descendants (layout_hierarchy example_tree None)) =
      [300, 300, 200, 100]"
    by code_simp
  moreover have "map value_layout (descendants ?L) = [300, 200, 100]"
    by code_simp
  ultimately show ?thesis by blast
qed

section \<open>Label selection\<close>

lemma hasOverlap_iff:
  "hasOverlap fl c shown \<longleftrightarrow> (\<exists>e\<in>set shown. \<not> computed_separated fl c e)"
  by (induction shown) (auto simp: computed_separated_def distance_def minDistance_def Let_def)

lemma separated_sym: "separated a b \<longleftrightarrow> separated b a"
  by (simp add: separated_def add.commute power2_commute [of "x_node a"]
      power2_commute [of "y_node a"])

lemma separated_eq:
  "separated =
     (\<lambda>a b. sqrt ((x_node a - x_node b)\<^sup>2 + (y_node a - y_node b)\<^sup>2) \<ge> r_node a + r_node b - 10)"
  by (intro ext) (simp add: separated_def)

lemma computed_separated_exact: "computed_separated exact a b = separated a b"
  by (simp add: computed_separated_def separated_def exact_def power2_eq_square)

lemma scan_labels_append:
  "scan_labels fl shown (xs @ ys) = scan_labels fl (scan_labels fl shown xs) ys"
  by (induction xs arbitrary: shown) simp_all

lemma scan_labels_subseq: "\<exists>acc. scan_labels fl shown cs = shown @ acc \<and> subseq acc cs"
proof (induction cs arbitrary: shown)
  case Nil
  then show ?case by simp
next
  case (Cons c cs)
  show ?case
  proof (cases "hasOverlap fl c shown")
    case True
    with Cons.IH [of shown] show ?thesis by auto
  next
    case False
    from Cons.IH [of "shown @ [c]"] obtain acc where
      "scan_labels fl (shown @ [c]) cs = (shown @ [c]) @ acc" and "subseq acc cs"
      by blast
    with False have "scan_labels fl shown (c # cs) = shown @ (c # acc)"
      and "subseq (c # acc) (c # cs)"
      by simp_all
    then show ?thesis by blast
  qed
qed

lemma subseq_set_mono: "subseq xs ys \<Longrightarrow> set xs \<subseteq> set ys"
  using list_emb_set [of "(=)" xs ys] by auto

lemma scan_labels_set: "set (scan_labels fl [] cs) \<subseteq> set cs"
proof -
  from scan_labels_subseq [of fl "[]" cs] obtain acc where
    "scan_labels fl [] cs = acc" and "subseq acc cs"
    by auto
  then show ?thesis
    using subseq_set_mono by blast
qed

lemma scan_labels_separated:
  "sorted_wrt (\<lambda>accepted later. computed_separated fl later accepted) shown \<Longrightarrow>
   sorted_wrt (\<lambda>accepted later. computed_separated fl later accepted) (scan_labels fl shown cs)"
proof (induction cs arbitrary: shown)
  case Nil
  then show ?case by simp
next
  case (Cons c cs)
  have "sorted_wrt (\<lambda>accepted later. computed_separated fl later accepted) (shown @ [c])"
    if "\<not> hasOverlap fl c shown"
    using that Cons.prems by (auto simp: sorted_wrt_append hasOverlap_iff)
  with Cons show ?case by simp
qed

lemma insort_key_geometry:
  "map geometry (insort_key (\<lambda>d. k (geometry d)) a xs) = insort_key k (geometry a) (map geometry xs)"
  by (induction xs) simp_all

lemma sort_key_geometry:
  "map geometry (sort_key (\<lambda>d. k (geometry d)) xs) = sort_key k (map geometry xs)"
  by (induction xs) (simp_all add: insort_key_geometry)

lemma geometry_sel [simp]:
  "x_node (geometry d) = x_node d" "y_node (geometry d) = y_node d"
  "r_node (geometry d) = r_node d" "depth_node (geometry d) = depth_node d"
  by (simp_all add: geometry_def)

lemma hasOverlap_geometry:
  "hasOverlap fl (geometry c) (map geometry shown) = hasOverlap fl c shown"
  by (induction shown) (simp_all add: distance_def minDistance_def)

lemma scan_labels_geometry:
  "map geometry (scan_labels fl shown cs) = scan_labels fl (map geometry shown) (map geometry cs)"
  by (induction cs arbitrary: shown) (simp_all add: hasOverlap_geometry)

lemma labelCandidates_geometry: "map geometry (labelCandidates ns) = labelCandidates (map geometry ns)"
proof -
  have "map geometry (sort_key (\<lambda>d. - r_node (geometry d)) xs) = sort_key (\<lambda>d. - r_node d) (map geometry xs)"
    for xs :: "'a CircleNode_scheme list"
    by (rule sort_key_geometry)
  then show ?thesis
    by (simp add: labelCandidates_def filter_map comp_def)
qed

lemma labelsToShow_geometry:
  "map geometry (labelsToShow fl ns) = labelsToShow fl (map geometry ns)"
  by (simp add: labelsToShow_def scan_labels_geometry labelCandidates_geometry)


lemma computed_separated_ieee:
  assumes "js_add ieee
      (js_mul ieee (js_sub ieee (x_node a) (x_node b)) (js_sub ieee (x_node a) (x_node b)))
      (js_mul ieee (js_sub ieee (y_node a) (y_node b)) (js_sub ieee (y_node a) (y_node b))) = d * d \<and>
    (x_node a - x_node b) * (x_node a - x_node b) + (y_node a - y_node b) * (y_node a - y_node b) = d * d \<and>
    0 \<le> d \<and> round_double d = d \<and>
    js_sub ieee (js_add ieee (r_node a) (r_node b)) 10 = r_node a + r_node b - 10"
  shows "computed_separated ieee a b = separated a b"
proof -
  from assms have "sqrt (d * d) = d"
    by simp
  with assms have "js_sqrt ieee (d * d) = d"
    by (simp add: ieee_def ieee_sqrt_def)
  with assms \<open>sqrt (d * d) = d\<close> show ?thesis
    by (simp add: computed_separated_def separated_def power2_eq_square)
qed

lemma example_circles_table:
  "list_all
     (\<lambda>(a, b, d).
        js_add ieee
          (js_mul ieee (js_sub ieee (x_node a) (x_node b)) (js_sub ieee (x_node a) (x_node b)))
          (js_mul ieee (js_sub ieee (y_node a) (y_node b)) (js_sub ieee (y_node a) (y_node b))) = d * d \<and>
        (x_node a - x_node b) * (x_node a - x_node b) + (y_node a - y_node b) * (y_node a - y_node b) = d * d \<and>
        0 \<le> d \<and> round_double d = d \<and>
        js_sub ieee (js_add ieee (r_node a) (r_node b)) 10 = r_node a + r_node b - 10)
     [(circle 0 0 50 1, circle 0 0 50 1, 0), (circle 0 0 50 1, circle 30 40 40 1, 50),
      (circle 0 0 50 1, circle 300 400 36 2, 500), (circle 30 40 40 1, circle 0 0 50 1, 50),
      (circle 30 40 40 1, circle 30 40 40 1, 0), (circle 30 40 40 1, circle 300 400 36 2, 450),
      (circle 300 400 36 2, circle 0 0 50 1, 500), (circle 300 400 36 2, circle 30 40 40 1, 450),
      (circle 300 400 36 2, circle 300 400 36 2, 0)]"
  by code_simp



section \<open>transformToHierarchy\<close>

subsection \<open>Looking nodes up by their path\<close>

lemma paths_simps [simp]:
  "paths (HierarchyNode f cs) = path_node f # paths_in cs"
  "paths_in [] = []"
  "paths_in (c # cs) = paths c @ paths_in cs"
  by (simp_all add: paths_def paths_in_def)

lemma find_Some:
  "findNodeByPath t k = Some n \<Longrightarrow> n \<in> set (nodes t) \<and> path_node (info n) = k"
  "findNodeByPath_in cs k = Some n \<Longrightarrow> n \<in> set (nodes_in cs) \<and> path_node (info n) = k"
proof (induction t k and cs k rule: findNodeByPath_findNodeByPath_in.induct)
  case (1 f cs p)
  then show ?case by (cases "path_node f = p") auto
next
  case (2 p)
  then show ?case by simp
next
  case (3 c cs p)
  then show ?case by (cases "findNodeByPath c p") auto
qed

lemma find_None:
  "findNodeByPath t k = None \<longleftrightarrow> k \<notin> set (paths t)"
  "findNodeByPath_in cs k = None \<longleftrightarrow> k \<notin> set (paths_in cs)"
proof (induction t k and cs k rule: findNodeByPath_findNodeByPath_in.induct)
  case (1 f cs p)
  then show ?case by (cases "path_node f = p") auto
next
  case (2 p)
  then show ?case by simp
next
  case (3 c cs p)
  then show ?case by (cases "findNodeByPath c p") auto
qed

lemma find_distinct:
  "distinct (paths t) \<Longrightarrow> n \<in> set (nodes t) \<Longrightarrow> findNodeByPath t (path_node (info n)) = Some n"
  "distinct (paths_in cs) \<Longrightarrow> n \<in> set (nodes_in cs) \<Longrightarrow>
     findNodeByPath_in cs (path_node (info n)) = Some n"
proof (induction t and cs arbitrary: n and n rule: nodes_nodes_in.induct)
  case (1 f cs)
  show ?case
  proof (cases "n = HierarchyNode f cs")
    case True
    then show ?thesis by simp
  next
    case False
    with "1.prems"(2) have n: "n \<in> set (nodes_in cs)" by simp
    then have "path_node (info n) \<in> set (paths_in cs)"
      by (simp add: paths_in_def)
    moreover from "1.prems"(1) have "path_node f \<notin> set (paths_in cs)" by simp
    ultimately have ne: "path_node f \<noteq> path_node (info n)" by metis
    from "1.prems"(1) have "distinct (paths_in cs)" by simp
    then have "findNodeByPath_in cs (path_node (info n)) = Some n"
      using n by (rule "1.IH")
    with ne show ?thesis by simp
  qed
next
  case 2
  then show ?case by simp
next
  case (3 c cs)
  from "3.prems"(1) have d: "distinct (paths c)" "distinct (paths_in cs)"
    and disj: "set (paths c) \<inter> set (paths_in cs) = {}"
    by simp_all
  show ?case
  proof (cases "n \<in> set (nodes c)")
    case True
    with d(1) have "findNodeByPath c (path_node (info n)) = Some n"
      by (rule "3.IH"(1))
    then show ?thesis by simp
  next
    case False
    with "3.prems"(2) have n: "n \<in> set (nodes_in cs)" by simp
    then have "path_node (info n) \<in> set (paths_in cs)"
      by (simp add: paths_in_def)
    with disj have "path_node (info n) \<notin> set (paths c)" by blast
    then have none: "findNodeByPath c (path_node (info n)) = None"
      by (simp add: find_None)
    from d(2) n have "findNodeByPath_in cs (path_node (info n)) = Some n"
      by (rule "3.IH"(2))
    with none show ?thesis by simp
  qed
qed

subsection \<open>Updates of the node under a path key\<close>

text \<open>
  A quantity that is a sum over the nodes of a tree changes under \<open>update_node\<close> as it
  changes at the node that is updated.  It is used for the sum of the direct values and
  for the multiset of the path keys.
\<close>

lemma weigh_update:
  fixes w :: "node_fields \<Rightarrow> 'a::comm_monoid_add"
  assumes g: "\<And>n. path_node (info n) = k \<Longrightarrow>
      (\<Sum>x\<leftarrow>nodes (g n). w (info x)) = (\<Sum>x\<leftarrow>nodes n. w (info x)) + d"
  shows "findNodeByPath t k \<noteq> None \<Longrightarrow>
      (\<Sum>x\<leftarrow>nodes (update_node k g t). w (info x)) = (\<Sum>x\<leftarrow>nodes t. w (info x)) + d"
    and "findNodeByPath_in cs k \<noteq> None \<Longrightarrow>
      (\<Sum>x\<leftarrow>nodes_in (update_in k g cs). w (info x)) = (\<Sum>x\<leftarrow>nodes_in cs. w (info x)) + d"
  using g
proof (induction k g t and k g cs rule: update_node_update_in.induct)
  case (1 k g f cs)
  show ?case
  proof (cases "path_node f = k")
    case True
    then have "path_node (info (HierarchyNode f cs)) = k" by simp
    then have "(\<Sum>x\<leftarrow>nodes (g (HierarchyNode f cs)). w (info x)) =
        (\<Sum>x\<leftarrow>nodes (HierarchyNode f cs). w (info x)) + d"
      by (rule "1.prems"(2))
    with True show ?thesis by simp
  next
    case False
    with "1.prems"(1) have "findNodeByPath_in cs k \<noteq> None" by simp
    with False have "(\<Sum>x\<leftarrow>nodes_in (update_in k g cs). w (info x)) =
        (\<Sum>x\<leftarrow>nodes_in cs. w (info x)) + d"
      using "1.prems"(2) by (rule "1.IH")
    with False show ?thesis by (simp add: add.assoc)
  qed
next
  case (2 k g)
  then show ?case by simp
next
  case (3 k g c cs)
  show ?case
  proof (cases "findNodeByPath c k \<noteq> None")
    case True
    then have "(\<Sum>x\<leftarrow>nodes (update_node k g c). w (info x)) = (\<Sum>x\<leftarrow>nodes c. w (info x)) + d"
      using True "3.prems"(2) by (rule "3.IH"(1))
    with True show ?thesis by (simp add: add.assoc add.commute add.left_commute)
  next
    case False
    with "3.prems"(1) have "findNodeByPath_in cs k \<noteq> None" by simp
    with False have "(\<Sum>x\<leftarrow>nodes_in (update_in k g cs). w (info x)) =
        (\<Sum>x\<leftarrow>nodes_in cs. w (info x)) + d"
      using "3.prems"(2) by (rule "3.IH"(2))
    with False show ?thesis by (simp add: add.assoc)
  qed
qed

lemma info_at_node:
  "info_at (HierarchyNode f cs) q = (if path_node f = q then Some f else info_in cs q)"
  by (simp add: info_at_def info_in_def)

lemma info_in_Nil: "info_in [] q = None"
  by (simp add: info_in_def)

lemma info_in_Cons:
  "info_in (c # cs) q = (case info_at c q of Some i \<Rightarrow> Some i | None \<Rightarrow> info_in cs q)"
  by (cases "findNodeByPath c q") (simp_all add: info_at_def info_in_def)

lemma info_in_append:
  "info_in (xs @ ys) q = (case info_in xs q of Some i \<Rightarrow> Some i | None \<Rightarrow> info_in ys q)"
  by (induction xs) (simp_all add: info_in_Nil info_in_Cons split: option.splits)

lemma info_at_None: "info_at t q = None \<longleftrightarrow> findNodeByPath t q = None"
  by (simp add: info_at_def)

lemma info_in_None: "info_in cs q = None \<longleftrightarrow> findNodeByPath_in cs q = None"
  by (simp add: info_in_def)

text \<open>An update that keeps the children and the path of the node: only the node under
  the key is seen to change.\<close>

lemma info_at_update_keep:
  assumes keep: "\<And>n. children (g n) = children n \<and> path_node (info (g n)) = path_node (info n)"
  shows "info_at (update_node k g t) q =
      (if q = k then map_option (\<lambda>n. info (g n)) (findNodeByPath t k) else info_at t q)"
    and "info_in (update_in k g cs) q =
      (if q = k then map_option (\<lambda>n. info (g n)) (findNodeByPath_in cs k) else info_in cs q)"
  using keep
proof (induction k g t and k g cs rule: update_node_update_in.induct)
  case (1 k g f cs)
  show ?case
  proof (cases "path_node f = k")
    case True
    define N where "N = g (HierarchyNode f cs)"
    have N: "N = HierarchyNode (info N) cs" and p: "path_node (info N) = k"
      using "1.prems" [of "HierarchyNode f cs"] True
      by (cases N; simp add: N_def)+
    have "info_at N q = (if q = k then Some (info N) else info_in cs q)"
      by (subst N) (use p in \<open>auto simp: info_at_node\<close>)
    with True show ?thesis
      by (simp add: info_at_node N_def)
  next
    case False
    have "info_in (update_in k g cs) q =
      (if q = k then map_option (\<lambda>n. info (g n)) (findNodeByPath_in cs k) else info_in cs q)"
      using False "1.prems" by (rule "1.IH")
    with False show ?thesis
      by (auto simp: info_at_node)
  qed
next
  case (2 k g)
  then show ?case by (simp add: info_in_Nil)
next
  case (3 k g c cs)
  show ?case
  proof (cases "findNodeByPath c k \<noteq> None")
    case True
    have ih: "info_at (update_node k g c) q =
      (if q = k then map_option (\<lambda>n. info (g n)) (findNodeByPath c k) else info_at c q)"
      using True "3.prems" by (rule "3.IH"(1))
    from True obtain n where n: "findNodeByPath c k = Some n" by auto
    show ?thesis
    proof (cases "q = k")
      case True
      with ih n \<open>findNodeByPath c k \<noteq> None\<close> show ?thesis
        by (simp add: info_in_Cons)
    next
      case False
      with ih \<open>findNodeByPath c k \<noteq> None\<close> show ?thesis
        by (simp add: info_in_Cons)
    qed
  next
    case False
    then have none: "findNodeByPath c k = None" by simp
    have ih: "info_in (update_in k g cs) q =
      (if q = k then map_option (\<lambda>n. info (g n)) (findNodeByPath_in cs k) else info_in cs q)"
      using False "3.prems" by (rule "3.IH"(2))
    show ?thesis
    proof (cases "info_at c q")
      case None
      with ih none show ?thesis by (simp add: info_in_Cons)
    next
      case (Some i)
      then have "q \<noteq> k" using none by (auto simp: info_at_def)
      with Some none show ?thesis by (simp add: info_in_Cons)
    qed
  qed
qed

text \<open>An update that appends a node without children whose path is not in the tree.\<close>

lemma info_at_update_push:
  assumes push: "\<And>n. g n = HierarchyNode (info n) (children n @ [HierarchyNode nf []])"
  shows "findNodeByPath t (path_node nf) = None \<Longrightarrow>
      info_at (update_node k g t) q =
        (if q = path_node nf \<and> findNodeByPath t k \<noteq> None then Some nf else info_at t q)"
    and "findNodeByPath_in cs (path_node nf) = None \<Longrightarrow>
      info_in (update_in k g cs) q =
        (if q = path_node nf \<and> findNodeByPath_in cs k \<noteq> None then Some nf else info_in cs q)"
  using push
proof (induction k g t and k g cs rule: update_node_update_in.induct)
  case (1 k g f cs)
  from "1.prems"(1) have fresh: "path_node f \<noteq> path_node nf"
    and fresh_cs: "findNodeByPath_in cs (path_node nf) = None"
    by (simp_all split: if_splits)
  from fresh_cs have none_cs: "info_in cs (path_node nf) = None"
    by (simp add: info_in_None)
  show ?case
  proof (cases "path_node f = k")
    case True
    have "g (HierarchyNode f cs) = HierarchyNode f (cs @ [HierarchyNode nf []])"
      by (simp add: "1.prems"(2))
    moreover have "info_in [HierarchyNode nf []] q = (if path_node nf = q then Some nf else None)"
      by (simp add: info_in_Cons info_in_Nil info_at_node)
    ultimately show ?thesis
      using True fresh none_cs
      by (auto simp: info_at_node info_in_append split: option.splits)
  next
    case False
    have "info_in (update_in k g cs) q =
        (if q = path_node nf \<and> findNodeByPath_in cs k \<noteq> None then Some nf else info_in cs q)"
      using False fresh_cs "1.prems"(2) by (rule "1.IH")
    with False fresh show ?thesis
      by (auto simp: info_at_node)
  qed
next
  case (2 k g)
  then show ?case by (simp add: info_in_Nil)
next
  case (3 k g c cs)
  from "3.prems"(1) have fresh_c: "findNodeByPath c (path_node nf) = None"
    and fresh_cs: "findNodeByPath_in cs (path_node nf) = None"
    by (simp_all split: option.splits)
  from fresh_c have none_c: "info_at c (path_node nf) = None"
    by (simp add: info_at_None)
  show ?case
  proof (cases "findNodeByPath c k \<noteq> None")
    case True
    have ih: "info_at (update_node k g c) q =
        (if q = path_node nf \<and> findNodeByPath c k \<noteq> None then Some nf else info_at c q)"
      using True fresh_c "3.prems"(2) by (rule "3.IH"(1))
    show ?thesis
    proof (cases "q = path_node nf")
      case True
      with ih none_c \<open>findNodeByPath c k \<noteq> None\<close> show ?thesis
        by (auto simp: info_in_Cons)
    next
      case False
      with ih \<open>findNodeByPath c k \<noteq> None\<close> show ?thesis
        by (simp add: info_in_Cons)
    qed
  next
    case False
    then have none: "findNodeByPath c k = None" by simp
    have ih: "info_in (update_in k g cs) q =
        (if q = path_node nf \<and> findNodeByPath_in cs k \<noteq> None then Some nf else info_in cs q)"
      using False fresh_cs "3.prems"(2) by (rule "3.IH"(2))
    show ?thesis
    proof (cases "q = path_node nf")
      case True
      with ih none none_c show ?thesis
        by (simp add: info_in_Cons)
    next
      case False
      with ih none show ?thesis
        by (simp add: info_in_Cons split: option.splits)
    qed
  qed
qed

lemma value_at_info: "value_at t q = (case info_at t q of None \<Rightarrow> None | Some i \<Rightarrow> value_node i)"
  by (cases "findNodeByPath t q") (simp_all add: value_at_def info_at_def)

lemma nodes_in_append: "nodes_in (xs @ ys) = nodes_in xs @ nodes_in ys"
  by (induction xs) simp_all

lemma nodes_split: "nodes n = n # nodes_in (children n)"
  by (cases n) simp

lemma paths_mset: "mset (paths t) = (\<Sum>x\<leftarrow>nodes t. {#path_node (info x)#})"
proof -
  have "mset (map f xs) = (\<Sum>x\<leftarrow>xs. {#f x#})" for f :: "HierarchyNode \<Rightarrow> jsstring" and xs
    by (induction xs) simp_all
  then show ?thesis by (simp add: paths_def)
qed

lemma subtree_sum_alt: "subtree_sum t = (\<Sum>x\<leftarrow>nodes t. value_or0 (value_node (info x)))"
proof -
  have "direct = (\<lambda>x. value_or0 (value_node (info x)))"
    by (rule ext) (simp add: direct_def)
  then show ?thesis by (simp add: subtree_sum_def)
qed

subsection \<open>push_child and add_value\<close>

lemma nodes_pushed:
  "(\<Sum>x\<leftarrow>nodes (HierarchyNode (info n) (children n @ [HierarchyNode nf []])). w (info x)) =
   (\<Sum>x\<leftarrow>nodes n. w (info x)) + (w nf :: 'a::comm_monoid_add)"
  by (simp add: nodes_in_append nodes_split [of n] add.assoc)

lemma push_child_paths:
  assumes "findNodeByPath t pk \<noteq> None"
  shows "mset (paths (push_child pk (HierarchyNode nf []) t)) = mset (paths t) + {#path_node nf#}"
  unfolding paths_mset push_child_def
  by (rule weigh_update(1) [OF _ assms])
    (rule nodes_pushed [where w = "\<lambda>i. {#path_node i#}"])

lemma push_child_value_at:
  assumes "findNodeByPath t pk \<noteq> None" and "findNodeByPath t (path_node nf) = None"
  shows "value_at (push_child pk (HierarchyNode nf []) t) q =
     (if q = path_node nf then value_node nf else value_at t q)"
proof -
  have "info_at (push_child pk (HierarchyNode nf []) t) q =
      (if q = path_node nf \<and> findNodeByPath t pk \<noteq> None then Some nf else info_at t q)"
    unfolding push_child_def by (rule info_at_update_push(1) [OF _ assms(2)]) simp
  with assms(1) show ?thesis
    by (simp add: value_at_info)
qed

lemma add_value_paths:
  assumes "findNodeByPath t k \<noteq> None"
  shows "mset (paths (add_value arith k mv t)) = mset (paths t)"
proof -
  have "(\<Sum>x\<leftarrow>nodes (add_value arith k mv t). {#path_node (info x)#}) =
      (\<Sum>x\<leftarrow>nodes t. {#path_node (info x)#}) + {#}"
    unfolding add_value_def
    by (rule weigh_update(1) [OF _ assms]) (simp add: nodes_split [of _])
  then show ?thesis by (simp add: paths_mset)
qed

lemma add_value_value_at:
  assumes "findNodeByPath t k \<noteq> None"
  shows "value_at (add_value arith k mv t) q =
     (if q = k then accumulate arith (value_at t k) mv else value_at t q)"
proof -
  let ?g = "\<lambda>n. HierarchyNode
            ((info n)\<lparr>value_node := case value_node (info n) of None \<Rightarrow> Some mv | Some v \<Rightarrow> Some (js_add arith v mv)\<rparr>)
            (children n)"
  have eq: "info_at (add_value arith k mv t) q =
      (if q = k then map_option (\<lambda>n. info (?g n)) (findNodeByPath t k) else info_at t q)"
    unfolding add_value_def by (rule info_at_update_keep(1)) simp
  show ?thesis
  proof (cases "q = k")
    case False
    with eq show ?thesis by (simp add: value_at_info)
  next
    case True
    show ?thesis
    proof (cases "findNodeByPath t k")
      case None
      with assms show ?thesis by simp
    next
      case (Some n)
      with eq True have "info_at (add_value arith k mv t) q = Some (info (?g n))"
        by simp
      then have "value_at (add_value arith k mv t) q = value_node (info (?g n))"
        by (simp add: value_at_info)
      moreover from Some have "value_at t k = value_node (info n)"
        by (simp add: value_at_def)
      ultimately show ?thesis using True
        by (simp add: accumulate_def split: option.splits)
    qed
  qed
qed

subsection \<open>One row\<close>

text \<open>One level of one row: a call of the body of \<open>path.forEach\<close>.\<close>

lemma visit_level_step:
  fixes p :: "ParsedLevel list" and index :: nat and mv :: real and t :: HierarchyNode
    and par :: jsstring and m :: "(jsstring \<rightharpoonup> jsstring) option" and arith :: js_arith
  assumes d: "distinct (paths t)" and par: "par \<in> set (paths t)"
  defines "key \<equiv> buildPathKey (take (index + 1) p)"
  defines "final \<equiv> (index + 1 = length p)"
  defines "st \<equiv> visit_level arith m mv p (t, par) index"
  shows "distinct (paths (fst st)) \<and> set (paths t) \<subseteq> set (paths (fst st)) \<and>
     snd st \<in> set (paths (fst st)) \<and>
     (\<forall>q. value_at (fst st) q =
        (if final \<and> q = key then accumulate arith (value_at t key) mv else value_at t q))"
proof -
  have finalI: "(int index = int (length p) - 1) = final"
    unfolding final_def by auto
  have hpar: "findNodeByPath t par \<noteq> None"
    using par by (simp add: find_None)
  show ?thesis
  proof (cases "findNodeByPath t key = None")
    case True
    define nf where "nf =
      \<lparr>name_node = name (p ! index), buCode_node = Some (buCode (p ! index)),
       beblCode_node = Some (beblCode (p ! index)),
       beblFullName_node = (case m of None \<Rightarrow> None | Some f \<Rightarrow> f key),
       rawLabel_node = Some (raw (p ! index)),
       value_node = (if final then Some mv else None),
       level_node = int index, path_node = key\<rparr>"
    have pk: "path_node nf = key" and vn: "value_node nf = (if final then Some mv else None)"
      by (simp_all add: nf_def)
    have st: "st = (push_child par (HierarchyNode nf []) t, key)"
      using True unfolding st_def visit_level_def key_def [symmetric] finalI nf_def
      by (simp add: Let_def)
    from True have fresh: "findNodeByPath t (path_node nf) = None"
      by (simp add: pk)
    have ms: "mset (paths (fst st)) = mset (paths t) + {#key#}"
      unfolding st using push_child_paths [OF hpar, of nf] by (simp add: pk)
    then have "mset (paths (fst st)) = mset (key # paths t)" by simp
    then have dd: "distinct (paths (fst st)) \<longleftrightarrow> distinct (key # paths t)"
      by (rule mset_eq_imp_distinct_iff)
    from True have "key \<notin> set (paths t)" by (simp add: find_None)
    with d dd have 1: "distinct (paths (fst st))" by simp
    from ms have "set_mset (mset (paths (fst st))) = set_mset (mset (paths t) + {#key#})"
      by (rule arg_cong)
    then have ss: "set (paths (fst st)) = insert key (set (paths t))"
      by simp
    from True have vt: "value_at t key = None"
      by (simp add: value_at_def)
    have 5: "value_at (fst st) q =
        (if final \<and> q = key then accumulate arith (value_at t key) mv else value_at t q)" for q
      unfolding st using push_child_value_at [OF hpar fresh, of q] vt
      by (auto simp: pk vn accumulate_def)
    from 1 ss 5 show ?thesis
      by (simp add: st) blast
  next
    case False
    have st: "st = (if final then add_value arith key mv t else t, key)"
      unfolding st_def visit_level_def key_def [symmetric] finalI
      by (simp add: Let_def False)
    from False have mem: "key \<in> set (paths t)" by (simp add: find_None)
    show ?thesis
    proof (cases final)
      case True
      have ms: "mset (paths (add_value arith key mv t)) = mset (paths t)"
        using False by (rule add_value_paths)
      then have "distinct (paths (add_value arith key mv t)) \<longleftrightarrow> distinct (paths t)"
        by (rule mset_eq_imp_distinct_iff)
      moreover from ms have "set (paths (add_value arith key mv t)) = set (paths t)"
        by (rule mset_eq_setD)
      moreover have "value_at (add_value arith key mv t) q =
          (if q = key then accumulate arith (value_at t key) mv else value_at t q)" for q
        using False by (rule add_value_value_at)
      ultimately show ?thesis
        using True d mem by (simp add: st)
    next
      case False
      with d mem show ?thesis by (simp add: st)
    qed
  qed
qed

lemma visit_levels:
  fixes p :: "ParsedLevel list" and mv :: real and t :: HierarchyNode
    and m :: "(jsstring \<rightharpoonup> jsstring) option" and arith :: js_arith
  assumes d: "distinct (paths t)" and r: "[] \<in> set (paths t)" and p: "p \<noteq> []"
  shows "j \<le> length p \<Longrightarrow>
     distinct (paths (fst (foldl (visit_level arith m mv p) (t, []) [0..<j]))) \<and>
     set (paths t) \<subseteq> set (paths (fst (foldl (visit_level arith m mv p) (t, []) [0..<j]))) \<and>
     snd (foldl (visit_level arith m mv p) (t, []) [0..<j]) \<in>
       set (paths (fst (foldl (visit_level arith m mv p) (t, []) [0..<j]))) \<and>
     (\<forall>q. value_at (fst (foldl (visit_level arith m mv p) (t, []) [0..<j])) q =
        (if j = length p \<and> q = buildPathKey p
         then accumulate arith (value_at t (buildPathKey p)) mv else value_at t q))"
proof (induction j)
  case 0
  with d r p show ?case by simp
next
  case (Suc j)
  define sj where "sj = foldl (visit_level arith m mv p) (t, []) [0..<j]"
  from Suc.prems have j: "j < length p" by simp
  then have "j \<le> length p" and jn: "j \<noteq> length p" by simp_all
  from Suc.IH [OF this(1)] jn have
    dj: "distinct (paths (fst sj))" and sub: "set (paths t) \<subseteq> set (paths (fst sj))"
    and pj: "snd sj \<in> set (paths (fst sj))"
    and valj: "\<And>q. value_at (fst sj) q = value_at t q"
    unfolding sj_def by simp_all
  define s' where "s' = visit_level arith m mv p (fst sj, snd sj) j"
  have next_state: "foldl (visit_level arith m mv p) (t, []) [0..<Suc j] = s'"
    by (simp add: s'_def sj_def)
  from visit_level_step [OF dj pj, where index = j and p = p and m = m and mv = mv
      and arith = arith] have
    1: "distinct (paths (fst s'))" and 2: "set (paths (fst sj)) \<subseteq> set (paths (fst s'))"
    and 3: "snd s' \<in> set (paths (fst s'))"
    and 5: "\<And>q. value_at (fst s') q =
        (if j + 1 = length p \<and> q = buildPathKey (take (j + 1) p)
         then accumulate arith (value_at (fst sj) (buildPathKey (take (j + 1) p))) mv
         else value_at (fst sj) q)"
    unfolding s'_def by blast+
  have key: "buildPathKey (take (j + 1) p) = buildPathKey p" if "j + 1 = length p"
    using that by simp
  have val': "value_at (fst s') q =
        (if Suc j = length p \<and> q = buildPathKey p
         then accumulate arith (value_at t (buildPathKey p)) mv else value_at t q)" for q
    using 5 [of q] key by (auto simp: valj)
  from 1 2 sub 3 val' show ?case
    unfolding next_state by blast
qed

lemma add_row_effect:
  assumes d: "distinct (paths t)" and r: "[] \<in> set (paths t)"
  shows "distinct (paths (add_row arith m t row)) \<and> [] \<in> set (paths (add_row arith m t row)) \<and>
     (\<forall>q. value_at (add_row arith m t row) q =
        (if extractPath row \<noteq> [] \<and> q = row_key row
         then accumulate arith (value_at t (row_key row)) (value_or0 (marketValue row))
         else value_at t q))"
proof (cases "extractPath row = []")
  case True
  with d r show ?thesis by (simp add: add_row_def)
next
  case False
  have eq: "add_row arith m t row =
      fst (foldl (visit_level arith m (value_or0 (marketValue row)) (extractPath row)) (t, [])
        [0..<length (extractPath row)])"
    using False by (simp add: add_row_def Let_def)
  from visit_levels [OF d r False, where j = "length (extractPath row)" and m = m
      and mv = "value_or0 (marketValue row)" and arith = arith]
  show ?thesis
    unfolding eq [symmetric] row_key_def using False r by auto
qed

subsection \<open>All rows\<close>

lemma accumulated_snoc:
  "accumulated arith (rows @ [row]) k =
     (if extractPath row \<noteq> [] \<and> row_key row = k
      then accumulate arith (accumulated arith rows k) (value_or0 (marketValue row))
      else accumulated arith rows k)"
  by (simp add: accumulated_def weights_at_def accumulate_def split: list.splits)

lemma root_node_facts:
  "distinct (paths root_node)" "[] \<in> set (paths root_node)" "value_at root_node q = None"
  by (simp_all add: root_node_def value_at_def)

lemma transform_invariant:
  "distinct (paths (transformToHierarchy arith rows m)) \<and>
   [] \<in> set (paths (transformToHierarchy arith rows m)) \<and>
   (\<forall>q. value_at (transformToHierarchy arith rows m) q = accumulated arith rows q)"
proof (induction rows rule: rev_induct)
  case Nil
  show ?case
    by (simp add: transformToHierarchy_def root_node_facts accumulated_def weights_at_def)
next
  case (snoc row rows)
  define t where "t = transformToHierarchy arith rows m"
  have step: "transformToHierarchy arith (rows @ [row]) m = add_row arith m t row"
    by (simp add: transformToHierarchy_def t_def)
  from snoc have d: "distinct (paths t)" and r: "[] \<in> set (paths t)"
    and v: "\<And>q. value_at t q = accumulated arith rows q"
    unfolding t_def by simp_all
  from add_row_effect [OF d r, of arith m row] have
    1: "distinct (paths (add_row arith m t row))" and 2: "[] \<in> set (paths (add_row arith m t row))"
    and 4: "\<And>q. value_at (add_row arith m t row) q =
        (if extractPath row \<noteq> [] \<and> q = row_key row
         then accumulate arith (value_at t (row_key row)) (value_or0 (marketValue row))
         else value_at t q)"
    by blast+
  have "value_at (add_row arith m t row) q = accumulated arith (rows @ [row]) q" for q
    using 4 [of q] by (auto simp: v accumulated_snoc)
  then show ?case
    unfolding step using 1 2 by blast
qed

lemma ne_set_nonempty: "x \<in> set xs \<Longrightarrow> xs \<noteq> []"
  by auto

text \<open>A row with a path has a node under its key.\<close>

lemma row_key_in_paths:
  assumes "row \<in> set rows" and "extractPath row \<noteq> []"
  shows "row_key row \<in> set (paths (transformToHierarchy arith rows m))"
proof -
  from assms have "row \<in> set (filter (\<lambda>r. extractPath r \<noteq> [] \<and> row_key r = row_key row) rows)"
    by simp
  then have "filter (\<lambda>r. extractPath r \<noteq> [] \<and> row_key r = row_key row) rows \<noteq> []"
    by (rule ne_set_nonempty)
  then have "weights_at rows (row_key row) \<noteq> []"
    unfolding weights_at_def by (simp only: map_is_Nil_conv not_False_eq_True)
  then have "accumulated arith rows (row_key row) \<noteq> None"
    by (simp add: accumulated_def split: list.splits)
  with transform_invariant [of arith rows m]
  have "value_at (transformToHierarchy arith rows m) (row_key row) \<noteq> None"
    by simp
  then have "findNodeByPath (transformToHierarchy arith rows m) (row_key row) \<noteq> None"
    by (auto simp: value_at_def split: option.splits)
  then show ?thesis by (simp add: find_None)
qed

text \<open>Summing by key: when the keys are distinct and every row has its key among them,
  the sums of the weights of the rows of each key add up to the sum over all rows.\<close>

lemma sum_list_single_key:
  "distinct ks \<Longrightarrow> (\<Sum>k\<leftarrow>ks. if k = a then c else 0) = (if a \<in> set ks then c else (0 :: real))"
  by (induction ks) auto

lemma sum_by_key:
  assumes "distinct ks"
  shows "\<forall>row\<in>set rows. P row \<longrightarrow> key row \<in> set ks \<Longrightarrow>
     (\<Sum>k\<leftarrow>ks. \<Sum>row\<leftarrow>filter (\<lambda>row. P row \<and> key row = k) rows. w row) =
     (\<Sum>row\<leftarrow>filter P rows. w row :: real)"
proof (induction rows)
  case Nil
  show ?case by simp
next
  case (Cons r rs)
  then have IH: "(\<Sum>k\<leftarrow>ks. \<Sum>row\<leftarrow>filter (\<lambda>row. P row \<and> key row = k) rs. w row) =
     (\<Sum>row\<leftarrow>filter P rs. w row)"
    by simp
  show ?case
  proof (cases "P r")
    case False
    with IH show ?thesis by simp
  next
    case True
    with Cons.prems have mem: "key r \<in> set ks"
      by simp
    have "(\<Sum>k\<leftarrow>ks. \<Sum>row\<leftarrow>filter (\<lambda>row. P row \<and> key row = k) (r # rs). w row) =
        (\<Sum>k\<leftarrow>ks. (if k = key r then w r else 0) +
           (\<Sum>row\<leftarrow>filter (\<lambda>row. P row \<and> key row = k) rs. w row))"
      using True by (intro arg_cong [where f = sum_list] map_cong) auto
    also have "\<dots> = (\<Sum>k\<leftarrow>ks. if k = key r then w r else 0) +
        (\<Sum>k\<leftarrow>ks. \<Sum>row\<leftarrow>filter (\<lambda>row. P row \<and> key row = k) rs. w row)"
      by (rule sum_list_addf)
    also have "\<dots> = w r + (\<Sum>row\<leftarrow>filter P rs. w row)"
      using mem by (simp only: sum_list_single_key [OF assms] IH if_True)
    finally show ?thesis using True by simp
  qed
qed

lemma foldl_add_sum_list: "foldl (+) w ws = w + sum_list (ws :: real list)"
  by (induction ws arbitrary: w) simp_all

lemma accumulated_exact: "value_or0 (accumulated exact rows k) = sum_list (weights_at rows k)"
  by (simp add: accumulated_def exact_def value_or0_def foldl_add_sum_list split: list.splits)

lemma node_values:
  assumes "n \<in> set (nodes (transformToHierarchy arith rows m))"
  shows "value_node (info n) = accumulated arith rows (path_node (info n))"
proof -
  let ?t = "transformToHierarchy arith rows m"
  from transform_invariant [of arith rows m] have d: "distinct (paths ?t)"
    and v: "\<And>q. value_at ?t q = accumulated arith rows q"
    by blast+
  from d assms have "findNodeByPath ?t (path_node (info n)) = Some n"
    by (rule find_distinct(1))
  then have "value_at ?t (path_node (info n)) = value_node (info n)"
    by (simp add: value_at_def)
  then show ?thesis by (simp add: v)
qed

lemma sum_of_exact_values:
  assumes "\<forall>k\<in>set (paths (transformToHierarchy arith rows m)).
      value_or0 (accumulated arith rows k) = sum_list (weights_at rows k)"
  shows "subtree_sum (transformToHierarchy arith rows m) =
     (\<Sum>row\<leftarrow>filter (\<lambda>row. extractPath row \<noteq> []) rows. value_or0 (marketValue row))"
proof -
  let ?t = "transformToHierarchy arith rows m"
  have "subtree_sum ?t = (\<Sum>x\<leftarrow>nodes ?t. value_or0 (value_node (info x)))"
    by (rule subtree_sum_alt)
  also have "\<dots> = (\<Sum>x\<leftarrow>nodes ?t. value_or0 (accumulated arith rows (path_node (info x))))"
    by (intro arg_cong [where f = sum_list] map_cong refl) (simp only: node_values)
  also have "\<dots> = (\<Sum>k\<leftarrow>paths ?t. value_or0 (accumulated arith rows k))"
    by (simp add: paths_def comp_def)
  also have "\<dots> = (\<Sum>k\<leftarrow>paths ?t. sum_list (weights_at rows k))"
    using assms by (intro arg_cong [where f = sum_list] map_cong refl) blast
  also have "\<dots> = (\<Sum>k\<leftarrow>paths ?t.
      \<Sum>row\<leftarrow>filter (\<lambda>row. extractPath row \<noteq> [] \<and> row_key row = k) rows. value_or0 (marketValue row))"
    by (simp only: weights_at_def)
  also have "\<dots> = (\<Sum>row\<leftarrow>filter (\<lambda>row. extractPath row \<noteq> []) rows. value_or0 (marketValue row))"
  proof (rule sum_by_key)
    show "distinct (paths ?t)"
      using transform_invariant [of arith rows m] by blast
    show "\<forall>row\<in>set rows. extractPath row \<noteq> [] \<longrightarrow> row_key row \<in> set (paths ?t)"
      using row_key_in_paths by blast
  qed
  finally show ?thesis .
qed

lemma row_key_levels:
  "row_key row =
     join_pipe
       (map the
          (takeWhile (\<lambda>level. level \<noteq> None \<and> level \<noteq> Some [])
             [level0 row, level1 row, level2 row, level3 row, level4 row, level5 row,
              level6 row, level7 row, level8 row, level9 row, level10 row]))"
  by (simp only: row_key_def buildPathKey_def raw_extractPath)

text \<open>
  C5.  The arithmetic of the program is a parameter.  In the tree built from any row
  sequence no two nodes have the same path key, and every row with a path has a node
  under its key, which is the raw strings of its path joined with \<open>|\<close>.  The value of
  every node is what the rows with the key of the node have accumulated: \<open>undefined\<close>
  when there is no such row, else the weight of the first of them to which the weights
  of the later ones have been added in the order of the rows, with the addition of the
  program and a missing weight counting as 0; one more row initialises the value under
  its key or adds to it, and leaves every other value as it is.  When the value
  accumulated under every key of the tree is the exact sum of the weights of the rows
  of that key, the direct values of all nodes add up to the weights of the rows whose
  path is not empty; in arithmetic without rounding this is always so.
\<close>

theorem directValue_accumulation:
  "(\<forall>n\<in>set (nodes (transformToHierarchy arith rows m)).
      value_node (info n) = accumulated arith rows (path_node (info n))) \<and>
   accumulated arith (rows @ [row]) k =
     (if extractPath row \<noteq> [] \<and> row_key row = k
      then accumulate arith (accumulated arith rows k) (value_or0 (marketValue row))
      else accumulated arith rows k) \<and>
   distinct (paths (transformToHierarchy arith rows m)) \<and>
   (\<forall>row\<in>set rows. extractPath row \<noteq> [] \<longrightarrow>
      row_key row \<in> set (paths (transformToHierarchy arith rows m))) \<and>
   row_key row =
     join_pipe
       (map the
          (takeWhile (\<lambda>level. level \<noteq> None \<and> level \<noteq> Some [])
             [level0 row, level1 row, level2 row, level3 row, level4 row, level5 row,
              level6 row, level7 row, level8 row, level9 row, level10 row])) \<and>
   ((\<forall>k\<in>set (paths (transformToHierarchy arith rows m)).
        value_or0 (accumulated arith rows k) = sum_list (weights_at rows k)) \<longrightarrow>
      subtree_sum (transformToHierarchy arith rows m) =
        (\<Sum>row\<leftarrow>filter (\<lambda>row. extractPath row \<noteq> []) rows. value_or0 (marketValue row))) \<and>
   subtree_sum (transformToHierarchy exact rows m) =
     (\<Sum>row\<leftarrow>filter (\<lambda>row. extractPath row \<noteq> []) rows. value_or0 (marketValue row))"
proof (intro conjI ballI impI)
  fix n
  assume "n \<in> set (nodes (transformToHierarchy arith rows m))"
  then show "value_node (info n) = accumulated arith rows (path_node (info n))"
    by (rule node_values)
next
  show "accumulated arith (rows @ [row]) k =
     (if extractPath row \<noteq> [] \<and> row_key row = k
      then accumulate arith (accumulated arith rows k) (value_or0 (marketValue row))
      else accumulated arith rows k)"
    by (rule accumulated_snoc)
next
  show "distinct (paths (transformToHierarchy arith rows m))"
    using transform_invariant [of arith rows m] by blast
next
  fix r
  assume "r \<in> set rows" and "extractPath r \<noteq> []"
  then show "row_key r \<in> set (paths (transformToHierarchy arith rows m))"
    by (rule row_key_in_paths)
next
  show "row_key row =
     join_pipe
       (map the
          (takeWhile (\<lambda>level. level \<noteq> None \<and> level \<noteq> Some [])
             [level0 row, level1 row, level2 row, level3 row, level4 row, level5 row,
              level6 row, level7 row, level8 row, level9 row, level10 row]))"
    by (rule row_key_levels)
next
  assume "\<forall>k\<in>set (paths (transformToHierarchy arith rows m)).
      value_or0 (accumulated arith rows k) = sum_list (weights_at rows k)"
  then show "subtree_sum (transformToHierarchy arith rows m) =
      (\<Sum>row\<leftarrow>filter (\<lambda>row. extractPath row \<noteq> []) rows. value_or0 (marketValue row))"
    by (rule sum_of_exact_values)
next
  show "subtree_sum (transformToHierarchy exact rows m) =
      (\<Sum>row\<leftarrow>filter (\<lambda>row. extractPath row \<noteq> []) rows. value_or0 (marketValue row))"
    by (rule sum_of_exact_values) (simp add: accumulated_exact)
qed

theorem directValue_accumulation_witness:
  "list_all
     (\<lambda>k. value_or0 (accumulated ieee [row_b, gap_row, row_c, row_b] k) =
        sum_list (weights_at [row_b, gap_row, row_c, row_b] k))
     (paths (transformToHierarchy ieee [row_b, gap_row, row_c, row_b] None)) \<and>
   subtree_sum (transformToHierarchy ieee [row_b, gap_row, row_c, row_b] None) = 400 \<and>
   map (\<lambda>n. value_node (info n))
     (nodes (transformToHierarchy ieee [row_b, gap_row, row_c, row_b] None)) =
     [None, None, Some 200, Some 200] \<and>
   list_all (\<lambda>row. extractPath row = [] \<or>
       row_key row \<in> set (paths (transformToHierarchy ieee [row_b, gap_row, row_c, row_b] None)))
     [row_b, gap_row, row_c, row_b] \<and>
   row_key row_b = js ''A (1)-X|B (2)-Y'' \<and>
   accumulated ieee [row_b, gap_row, row_c, row_b] (js ''A (1)-X|B (2)-Y'') = Some 200"
proof -
  let ?rows = "[row_b, gap_row, row_c, row_b]"
  have h: "list_all
     (\<lambda>k. value_or0 (accumulated ieee ?rows k) = sum_list (weights_at ?rows k))
     (paths (transformToHierarchy ieee ?rows None))"
    by code_simp
  then have "\<forall>k\<in>set (paths (transformToHierarchy ieee ?rows None)).
      value_or0 (accumulated ieee ?rows k) = sum_list (weights_at ?rows k)"
    by (simp only: list_all_iff)
  with directValue_accumulation [of ieee ?rows None]
  have "subtree_sum (transformToHierarchy ieee ?rows None) =
      (\<Sum>row\<leftarrow>filter (\<lambda>row. extractPath row \<noteq> []) ?rows. value_or0 (marketValue row))"
    by blast
  also have "\<dots> = 400"
    by code_simp
  finally have "subtree_sum (transformToHierarchy ieee ?rows None) = 400" .
  moreover have
    "map (\<lambda>n. value_node (info n)) (nodes (transformToHierarchy ieee ?rows None)) =
     [None, None, Some 200, Some 200]"
    by code_simp
  moreover from directValue_accumulation [of ieee ?rows None]
  have "\<forall>row\<in>set ?rows. extractPath row \<noteq> [] \<longrightarrow>
      row_key row \<in> set (paths (transformToHierarchy ieee ?rows None))"
    by blast
  then have "list_all (\<lambda>row. extractPath row = [] \<or>
       row_key row \<in> set (paths (transformToHierarchy ieee ?rows None))) ?rows"
    by (simp only: list_all_iff) blast
  moreover have "row_key row_b = js ''A (1)-X|B (2)-Y''"
    by code_simp
  moreover have "accumulated ieee ?rows (js ''A (1)-X|B (2)-Y'') = Some 200"
    by code_simp
  ultimately show ?thesis using h by blast
qed

text \<open>
  C5, with sums of real numbers, fails in the arithmetic of JavaScript.  Two rows with
  the path \<open>[A]\<close> and the weights 0.1 and 0.2, that is the doubles
  \<open>3602879701896397 / 2\<^sup>5\<^sup>5\<close> and \<open>3602879701896397 / 2\<^sup>5\<^sup>4\<close>, give one node below the root,
  with the value \<open>1351079888211149 / 2\<^sup>5\<^sup>2\<close>, the double nearest to the sum
  \<open>10808639105689191 / 2\<^sup>5\<^sup>5\<close> of the weights.  Also, a row ends at the node that has its
  key, which need not lie where the path of the row leads: after a row with the path
  \<open>[A|B]\<close> and the weight 1, a row with the path \<open>[A, B]\<close> and the weight 2 adds to the
  node \<open>A|B\<close> below the root, and \<open>A\<close> gets no child.
\<close>

theorem directValue_rounding_counterexample:
  "map (\<lambda>n. value_node (info n)) (nodes (transformToHierarchy ieee [row_tenth, row_fifth] None)) =
     [None, Some (1351079888211149 / 2 ^ 52)] \<and>
   subtree_sum (transformToHierarchy ieee [row_tenth, row_fifth] None) = 1351079888211149 / 2 ^ 52 \<and>
   (\<Sum>row\<leftarrow>filter (\<lambda>row. extractPath row \<noteq> []) [row_tenth, row_fifth]. value_or0 (marketValue row)) =
     10808639105689191 / 2 ^ 55 \<and>
   (1351079888211149 / 2 ^ 52 :: real) \<noteq> 10808639105689191 / 2 ^ 55 \<and>
   map (\<lambda>n. (path_node (info n), level_node (info n), value_node (info n), length (children n)))
     (nodes (transformToHierarchy ieee
        [level_row (Some 1) (Some (js ''A|B'')) None,
         level_row (Some 2) (Some (js ''A'')) (Some (js ''B''))] None)) =
     [([], - 1, None, 2), (js ''A|B'', 0, Some 3, 0), (js ''A'', 0, None, 0)]"
  by code_simp

end
